theory Spec2Isabelle
  imports Complex_Main
begin

section \<open>Raw trees and the default options\<close>

text \<open>
  The development verifies \<^verbatim>\<open>src/lib/index.js\<close> for a session created without an
  \<^verbatim>\<open>options\<close> argument, so the five defaults of \<^verbatim>\<open>createQuery\<close> apply. A raw node
  is a plain object \<^verbatim>\<open>{ type, value }\<close> whose \<^verbatim>\<open>value\<close> is a string or an array of
  raw nodes.
\<close>

datatype 'n node_value = Text string | Items "'n list"

datatype raw = Raw (rtype: string) (rvalue: "raw node_value")

text \<open>\<^verbatim>\<open>hasChildren: (node) => Array.isArray(node.value)\<close>\<close>

definition hasChildren :: "raw \<Rightarrow> bool" where
  "hasChildren n = (case rvalue n of Items ks \<Rightarrow> True | Text s \<Rightarrow> False)"

text \<open>
  \<^verbatim>\<open>getChildren: (node) => node.value\<close>. The engine calls it only under
  \<^verbatim>\<open>hasChildren\<close>; the second case is there for totality.
\<close>

definition getChildren :: "raw \<Rightarrow> raw list" where
  "getChildren n = (case rvalue n of Items ks \<Rightarrow> ks | Text s \<Rightarrow> [])"

text \<open>\<^verbatim>\<open>getType: (node) => node.type\<close>\<close>

definition getType :: "raw \<Rightarrow> string" where
  "getType n = rtype n"

text \<open>
  \<^verbatim>\<open>toJSON: (node, children) => Object.assign({}, node, { value: children ? children : node.value })\<close>.
  An array is truthy even when empty, so only \<^verbatim>\<open>null\<close> keeps the node's own value.
\<close>

definition toJSON :: "raw \<Rightarrow> raw list option \<Rightarrow> raw" where
  "toJSON n cs = Raw (rtype n) (case cs of Some js \<Rightarrow> Items js | None \<Rightarrow> rvalue n)"

text \<open>\<^verbatim>\<open>toString: (node) => _.isString(node.value) ? node.value : ''\<close>\<close>

definition toString :: "raw \<Rightarrow> string" where
  "toString n = (case rvalue n of Text s \<Rightarrow> s | Items ks \<Rightarrow> [])"

section \<open>The overlay: Node objects in a store\<close>

text \<open>
  A \<^verbatim>\<open>Node\<close> object has an identity, and its \<^verbatim>\<open>children\<close> array is spliced in place.
  The store is the list of all Node objects allocated so far; the identity of an object
  is its position. \<^verbatim>\<open>parent\<close> is \<open>None\<close> for \<^verbatim>\<open>undefined\<close>, \<^verbatim>\<open>children\<close> is
  \<open>None\<close> for \<^verbatim>\<open>null\<close>.
\<close>

record Node =
  node :: raw
  parent :: "nat option"
  children :: "nat list option"

type_synonym heap = "Node list"

datatype error = InvariantViolation string | TypeError

text \<open>
  \<^verbatim>\<open>new Node(node, parent)\<close>: the object is allocated, then the children are built
  left to right with \<^verbatim>\<open>this\<close> as their parent, then \<^verbatim>\<open>this.children\<close> is assigned.
\<close>

fun new_Node :: "raw \<Rightarrow> nat option \<Rightarrow> heap \<Rightarrow> nat \<times> heap"
  and new_Nodes :: "raw list \<Rightarrow> nat \<Rightarrow> heap \<Rightarrow> nat list \<times> heap" where
  "new_Node (Raw t (Text s)) p h =
     (length h, h @ [\<lparr>node = Raw t (Text s), parent = p, children = None\<rparr>])"
| "new_Node (Raw t (Items ks)) p h =
     (let this = length h;
          h1 = h @ [\<lparr>node = Raw t (Items ks), parent = p, children = None\<rparr>];
          (cs, h2) = new_Nodes ks this h1
      in (this, h2[this := (h2 ! this)\<lparr>children := Some cs\<rparr>]))"
| "new_Nodes [] this h = ([], h)"
| "new_Nodes (k # ks) this h =
     (let (c, h1) = new_Node k (Some this) h;
          (cs, h2) = new_Nodes ks this h1
      in (c # cs, h2))"

text \<open>
  The argument of \<^verbatim>\<open>after\<close>, \<^verbatim>\<open>before\<close> and the result of the callback of
  \<^verbatim>\<open>replace\<close>: a raw node or an existing Node object.
\<close>

datatype node_arg = RawNode raw | Wrapped nat

text \<open>\<^verbatim>\<open>Node.create\<close>: an argument that is already a Node is returned as it is.\<close>

fun Node_create :: "node_arg \<Rightarrow> nat option \<Rightarrow> heap \<Rightarrow> nat \<times> heap" where
  "Node_create (Wrapped a) p h = (a, h)"
| "Node_create (RawNode r) p h = new_Node r p h"

text \<open>
  Recursion over the store follows \<^verbatim>\<open>children\<close> references, which \<^verbatim>\<open>after\<close> with a
  Node argument can turn into a cycle. The recursive methods carry the remaining call
  depth; \<open>None\<close> is a recursion that did not return within it.
\<close>

primrec mapM :: "('a \<Rightarrow> (error + 'b) option) \<Rightarrow> 'a list \<Rightarrow> (error + 'b list) option" where
  "mapM f [] = Some (Inr [])"
| "mapM f (x # xs) =
     (case f x of
        None \<Rightarrow> None
      | Some (Inl e) \<Rightarrow> Some (Inl e)
      | Some (Inr y) \<Rightarrow>
          (case mapM f xs of
             None \<Rightarrow> None
           | Some (Inl e) \<Rightarrow> Some (Inl e)
           | Some (Inr ys) \<Rightarrow> Some (Inr (y # ys))))"

primrec foldM :: "('b \<Rightarrow> 'a \<Rightarrow> (error + 'b) option) \<Rightarrow> 'b \<Rightarrow> 'a list \<Rightarrow> (error + 'b) option" where
  "foldM f acc [] = Some (Inr acc)"
| "foldM f acc (x # xs) =
     (case f acc x of
        None \<Rightarrow> None
      | Some (Inl e) \<Rightarrow> Some (Inl e)
      | Some (Inr acc') \<Rightarrow> foldM f acc' xs)"

text \<open>\<^verbatim>\<open>Node.prototype.toJSON\<close>\<close>

fun Node_toJSON :: "nat \<Rightarrow> heap \<Rightarrow> nat \<Rightarrow> (error + raw) option" where
  "Node_toJSON 0 h n = None"
| "Node_toJSON (Suc d) h n =
     (if hasChildren (node (h ! n))
      then (case children (h ! n) of
              None \<Rightarrow> Some (Inl TypeError)
            | Some cs \<Rightarrow>
                (case mapM (\<lambda>c. Node_toJSON d h c) cs of
                   None \<Rightarrow> None
                 | Some (Inl e) \<Rightarrow> Some (Inl e)
                 | Some (Inr js) \<Rightarrow> Some (Inr (toJSON (node (h ! n)) (Some js)))))
      else Some (Inr (toJSON (node (h ! n)) None)))"

text \<open>\<^verbatim>\<open>Node.prototype.reduce\<close>: the children first, left to right, then the node.\<close>

fun Node_reduce :: "nat \<Rightarrow> heap \<Rightarrow> ('b \<Rightarrow> nat \<Rightarrow> 'b) \<Rightarrow> 'b \<Rightarrow> nat \<Rightarrow> (error + 'b) option" where
  "Node_reduce 0 h fn acc n = None"
| "Node_reduce (Suc d) h fn acc n =
     (if hasChildren (node (h ! n))
      then (case children (h ! n) of
              None \<Rightarrow> Some (Inl TypeError)
            | Some cs \<Rightarrow>
                (case foldM (\<lambda>a c. Node_reduce d h fn a c) acc cs of
                   None \<Rightarrow> None
                 | Some (Inl e) \<Rightarrow> Some (Inl e)
                 | Some (Inr a) \<Rightarrow> Some (Inr (fn a n))))
      else Some (Inr (fn acc n)))"

section \<open>Argument values\<close>

text \<open>
  A \<^verbatim>\<open>RegExp\<close> object. Its pattern is a parameter: \<open>matcher re s i\<close> is the end
  index of the match of the pattern that starts at index \<open>i\<close> of \<open>s\<close>, if there is
  one. \<^verbatim>\<open>global\<close> and \<^verbatim>\<open>sticky\<close> are the flags \<^verbatim>\<open>g\<close> and \<^verbatim>\<open>y\<close>, and
  \<^verbatim>\<open>lastIndex\<close> is the property that \<^verbatim>\<open>test\<close> reads and writes under these flags.
\<close>

record regexp =
  matcher :: "string \<Rightarrow> nat \<Rightarrow> nat option"
  global :: bool
  sticky :: bool
  lastIndex :: nat

text \<open>
  The values a caller can pass where the source inspects its argument dynamically.
  A number is a rational, \<^verbatim>\<open>NaN\<close> or an infinity. A function is a predicate on a
  Node object that reads the store and returns a truthy or falsy value.
\<close>

datatype jsval =
    Undefined
  | Null
  | JBool bool
  | JNum rat
  | JNaN
  | JInfinity bool
  | JStr string
  | JRegExp regexp
  | JFunction "heap \<Rightarrow> nat \<Rightarrow> bool"
  | JObject raw
  | JNode nat
  | JArray "jsval list"

text \<open>\<^verbatim>\<open>!v\<close>\<close>

fun falsy :: "jsval \<Rightarrow> bool" where
  "falsy Undefined = True"
| "falsy Null = True"
| "falsy (JBool b) = (\<not> b)"
| "falsy (JNum q) = (q = 0)"
| "falsy JNaN = True"
| "falsy (JStr s) = (s = [])"
| "falsy v = False"

text \<open>\<^verbatim>\<open>_.isInteger\<close>: a number equal to its integer part; false on \<^verbatim>\<open>NaN\<close> and the infinities.\<close>

fun isInteger :: "jsval \<Rightarrow> bool" where
  "isInteger (JNum q) = (of_int \<lfloor>q\<rfloor> = q)"
| "isInteger v = False"

text \<open>The integer an integer-valued number stands for, as an array index.\<close>

fun to_int :: "jsval \<Rightarrow> int" where
  "to_int (JNum q) = \<lfloor>q\<rfloor>"
| "to_int v = 0"

fun isString :: "jsval \<Rightarrow> bool" where
  "isString (JStr s) = True"
| "isString v = False"

fun isRegExp :: "jsval \<Rightarrow> bool" where
  "isRegExp (JRegExp re) = True"
| "isRegExp v = False"

fun isFunction :: "jsval \<Rightarrow> bool" where
  "isFunction (JFunction f) = True"
| "isFunction v = False"

text \<open>\<^verbatim>\<open>Node.isNode\<close>\<close>

fun isNode :: "jsval \<Rightarrow> bool" where
  "isNode (JNode a) = True"
| "isNode v = False"

fun the_Node :: "jsval \<Rightarrow> nat" where
  "the_Node (JNode a) = a"
| "the_Node v = 0"

fun the_string :: "jsval \<Rightarrow> string" where
  "the_string (JStr s) = s"
| "the_string v = []"

fun the_regexp :: "jsval \<Rightarrow> regexp" where
  "the_regexp (JRegExp re) = re"
| "the_regexp v = \<lparr>matcher = (\<lambda>s i. None), global = False, sticky = False, lastIndex = 0\<rparr>"

text \<open>
  \<^verbatim>\<open>selector.lastIndex\<close> when the selector is passed in, and the selector with
  \<^verbatim>\<open>lastIndex\<close> as a call leaves it. Only a \<^verbatim>\<open>RegExp\<close> has the property.
\<close>

fun selector_lastIndex :: "jsval \<Rightarrow> nat" where
  "selector_lastIndex (JRegExp re) = lastIndex re"
| "selector_lastIndex v = 0"

fun with_lastIndex :: "jsval \<Rightarrow> nat \<Rightarrow> jsval" where
  "with_lastIndex (JRegExp re) i = JRegExp (re\<lparr>lastIndex := i\<rparr>)"
| "with_lastIndex v i = v"

text \<open>
  \<^verbatim>\<open>RegExp.prototype.test\<close>, as the language defines it. The search tries the
  pattern at \<open>i\<close>, \<open>i + 1\<close>, ... up to the length of the string; \<open>k\<close> counts the
  positions left. Without the flags \<^verbatim>\<open>g\<close> and \<^verbatim>\<open>y\<close> the search starts at 0 and
  \<^verbatim>\<open>lastIndex\<close> is left alone. With one of them it starts at \<^verbatim>\<open>lastIndex\<close> (with
  \<^verbatim>\<open>y\<close> only that position is tried); a match sets \<^verbatim>\<open>lastIndex\<close> to its end, a
  failure sets it to 0. The result is the truth value and the new \<^verbatim>\<open>lastIndex\<close>.
\<close>

fun search_from :: "(string \<Rightarrow> nat \<Rightarrow> nat option) \<Rightarrow> string \<Rightarrow> nat \<Rightarrow> nat \<Rightarrow> nat option" where
  "search_from m s i 0 = None"
| "search_from m s i (Suc k) =
     (case m s i of Some e \<Rightarrow> Some e | None \<Rightarrow> search_from m s (Suc i) k)"

definition regexp_search :: "(string \<Rightarrow> nat \<Rightarrow> nat option) \<Rightarrow> string \<Rightarrow> nat \<Rightarrow> nat option" where
  "regexp_search m s i = search_from m s i (Suc (length s) - i)"

definition regexp_test :: "regexp \<Rightarrow> string \<Rightarrow> bool \<times> nat" where
  "regexp_test re s =
     (if global re \<or> sticky re
      then (if lastIndex re > length s then (False, 0)
            else (case (if sticky re then matcher re s (lastIndex re)
                        else regexp_search (matcher re) s (lastIndex re)) of
                    None \<Rightarrow> (False, 0)
                  | Some e \<Rightarrow> (True, e)))
      else (case regexp_search (matcher re) s 0 of
              None \<Rightarrow> (False, lastIndex re)
            | Some e \<Rightarrow> (True, lastIndex re)))"

fun call :: "jsval \<Rightarrow> heap \<Rightarrow> nat \<Rightarrow> bool" where
  "call (JFunction f) h n = f h n"
| "call v h n = False"

text \<open>\<^verbatim>\<open>xs[i]\<close> for an integer \<^verbatim>\<open>i\<close>: \<^verbatim>\<open>undefined\<close> outside the array.\<close>

definition js_nth :: "'a list \<Rightarrow> int \<Rightarrow> 'a option" where
  "js_nth xs i = (if 0 \<le> i \<and> i < int (length xs) then Some (xs ! nat i) else None)"

text \<open>\<^verbatim>\<open>xs.indexOf(x)\<close>\<close>

fun indexOf :: "'a list \<Rightarrow> 'a \<Rightarrow> int" where
  "indexOf [] x = - 1"
| "indexOf (y # ys) x =
     (if y = x then 0 else (let i = indexOf ys x in if i < 0 then - 1 else i + 1))"

text \<open>\<^verbatim>\<open>xs.splice(start, deleteCount, ...items)\<close> for \<^verbatim>\<open>start >= 0\<close>\<close>

definition js_splice :: "'a list \<Rightarrow> nat \<Rightarrow> nat \<Rightarrow> 'a list \<Rightarrow> 'a list" where
  "js_splice xs start deleteCount items = take start xs @ items @ drop (start + deleteCount) xs"

text \<open>\<^verbatim>\<open>_.flatten\<close>: one level.\<close>

fun flatten :: "jsval list \<Rightarrow> jsval list" where
  "flatten [] = []"
| "flatten (JArray xs # vs) = xs @ flatten vs"
| "flatten (v # vs) = v # flatten vs"

text \<open>\<^verbatim>\<open>_.uniq\<close>: the first occurrence of each element is kept.\<close>

fun uniq :: "'a list \<Rightarrow> 'a list" where
  "uniq [] = []"
| "uniq (x # xs) = x # uniq (filter (\<lambda>y. y \<noteq> x) xs)"

text \<open>
  \<^verbatim>\<open>xs.filter(p)\<close> for a predicate that reads and writes \<^verbatim>\<open>lastIndex\<close>: the
  elements are tested left to right.
\<close>

fun filter_st :: "(nat \<Rightarrow> 'a \<Rightarrow> bool \<times> nat) \<Rightarrow> nat \<Rightarrow> 'a list \<Rightarrow> 'a list \<times> nat" where
  "filter_st p i [] = ([], i)"
| "filter_st p i (x # xs) =
     (let (b, i1) = p i x;
          (ys, i2) = filter_st p i1 xs
      in (if b then x # ys else ys, i2))"

primrec mapE :: "('a \<Rightarrow> error + 'b) \<Rightarrow> 'a list \<Rightarrow> error + 'b list" where
  "mapE f [] = Inr []"
| "mapE f (x # xs) =
     (case f x of
        Inl e \<Rightarrow> Inl e
      | Inr y \<Rightarrow> (case mapE f xs of Inl e \<Rightarrow> Inl e | Inr ys \<Rightarrow> Inr (y # ys)))"

section \<open>Selector resolution\<close>

text \<open>
  \<^verbatim>\<open>getSelector\<close>. A JavaScript function whose last statement is a guarded
  \<^verbatim>\<open>return\<close> returns \<^verbatim>\<open>undefined\<close> when the guard fails: that is \<open>None\<close> here.
  The predicate for a \<^verbatim>\<open>RegExp\<close> calls \<^verbatim>\<open>selector.test\<close>, which reads and writes
  \<^verbatim>\<open>selector.lastIndex\<close>. So a predicate takes \<^verbatim>\<open>lastIndex\<close> as it is before the
  call, the store and the Node, and returns its truth value and \<^verbatim>\<open>lastIndex\<close> after
  the call; the other three predicates leave it as it is.
\<close>

type_synonym predicate = "nat \<Rightarrow> heap \<Rightarrow> nat \<Rightarrow> bool \<times> nat"

definition getSelector :: "jsval \<Rightarrow> predicate option" where
  "getSelector selector =
     (let is_string = isString selector;
          is_regexp = isRegExp selector;
          is_function = isFunction selector
      in if \<not> (is_string \<or> is_regexp \<or> is_function) then Some (\<lambda>i h n. (True, i))
         else if is_string
           then Some (\<lambda>i h n. (getType (node (h ! n)) = the_string selector, i))
         else if is_regexp
           then Some (\<lambda>i h n. regexp_test ((the_regexp selector)\<lparr>lastIndex := i\<rparr>)
                                  (getType (node (h ! n))))
         else if is_function then Some (\<lambda>i h n. (call selector h n, i))
         else None)"

section \<open>The Wrapper\<close>

datatype wrapper = Wrapper (nodes: "nat list") (prevWrapper: "wrapper option")

text \<open>
  The constructor, which is also \<^verbatim>\<open>$\<close>. \<^verbatim>\<open>ROOT\<close> is the Node object built from
  the tree when the session was created. The second invariant of the source, that
  \<^verbatim>\<open>prevWrapper\<close> is a Wrapper when it is given, holds by the type of the argument.
\<close>

definition new_Wrapper :: "nat \<Rightarrow> jsval \<Rightarrow> wrapper option \<Rightarrow> error + wrapper" where
  "new_Wrapper ROOT node0 prev_wrapper =
     (let node1 = (if falsy node0 then JNode ROOT else node0);
          ns = flatten [node1]
      in if \<not> list_all isNode ns
         then Inl (InvariantViolation ''Only Node instances can be passed in to a Wrapper'')
         else Inr (Wrapper (map the_Node ns) prev_wrapper))"

text \<open>
  \<^verbatim>\<open>$filter\<close>, from \<^verbatim>\<open>lastIndex\<close> \<open>i\<close>: the new Wrapper and \<^verbatim>\<open>lastIndex\<close> after
  the last test.
\<close>

definition Wrapper_filter0 ::
  "nat \<Rightarrow> heap \<Rightarrow> wrapper \<Rightarrow> nat list \<Rightarrow> predicate \<Rightarrow> nat \<Rightarrow> (error + wrapper) \<times> nat" where
  "Wrapper_filter0 ROOT h this ns selector i =
     (let (ms, j) = filter_st (\<lambda>i n. selector i h n) i ns
      in (new_Wrapper ROOT (JArray (map JNode ms)) (Some this), j))"

text \<open>\<^verbatim>\<open>get\<close>\<close>

definition Wrapper_get :: "nat \<Rightarrow> heap \<Rightarrow> wrapper \<Rightarrow> jsval \<Rightarrow> (error + jsval) option" where
  "Wrapper_get d h this index =
     (if isInteger index
      then (case js_nth (nodes this) (to_int index) of
              None \<Rightarrow> Some (Inl TypeError)
            | Some n \<Rightarrow> map_option (map_sum id JObject) (Node_toJSON d h n))
      else map_option (map_sum id (\<lambda>js. JArray (map JObject js)))
             (mapM (\<lambda>n. Node_toJSON d h n) (nodes this)))"

text \<open>\<^verbatim>\<open>length\<close>\<close>

definition Wrapper_length :: "wrapper \<Rightarrow> nat" where
  "Wrapper_length this = length (nodes this)"

text \<open>
  \<^verbatim>\<open>index\<close>. In the third mode the source ends with
  \<^verbatim>\<open>this.$filter(p.children, selector).index(this.nodes[0])\<close>; the inner call has a
  Node argument, so it is the second mode on the filtered Wrapper. \<open>Wrapper_index_st\<close>
  gives the number returned and the argument as the call leaves it (a \<^verbatim>\<open>RegExp\<close>
  with its new \<^verbatim>\<open>lastIndex\<close>); \<open>Wrapper_index\<close> is the number returned. A throw
  comes before the first test of the selector.
\<close>

definition Wrapper_index_st ::
  "nat \<Rightarrow> heap \<Rightarrow> wrapper \<Rightarrow> jsval \<Rightarrow> error + int \<times> jsval" where
  "Wrapper_index_st ROOT h this arg =
     (if falsy arg
      then (case nodes this of
              [] \<Rightarrow> Inr (- 1, arg)
            | n # ns \<Rightarrow>
                (case parent (h ! n) of
                   None \<Rightarrow> Inr (- 1, arg)
                 | Some p \<Rightarrow>
                     if hasChildren (node (h ! p))
                     then (case children (h ! p) of
                             None \<Rightarrow> Inl TypeError
                           | Some cs \<Rightarrow> Inr (indexOf cs n, arg))
                     else Inr (- 1, arg)))
      else if isNode arg then Inr (indexOf (nodes this) (the_Node arg), arg)
      else (case nodes this of
              [] \<Rightarrow> Inl TypeError
            | n # ns \<Rightarrow>
                (case parent (h ! n) of
                   None \<Rightarrow> Inl TypeError
                 | Some p \<Rightarrow>
                     if \<not> hasChildren (node (h ! p)) then Inr (- 1, arg)
                     else (case getSelector arg of
                             None \<Rightarrow> Inl TypeError
                           | Some selector \<Rightarrow>
                               (case children (h ! p) of
                                  None \<Rightarrow> Inl TypeError
                                | Some cs \<Rightarrow>
                                    (case Wrapper_filter0 ROOT h this cs selector
                                            (selector_lastIndex arg) of
                                       (Inl e, i) \<Rightarrow> Inl e
                                     | (Inr w, i) \<Rightarrow>
                                         Inr (indexOf (nodes w) n, with_lastIndex arg i)))))))"

definition Wrapper_index :: "nat \<Rightarrow> heap \<Rightarrow> wrapper \<Rightarrow> jsval \<Rightarrow> error + int" where
  "Wrapper_index ROOT h this arg = map_sum id fst (Wrapper_index_st ROOT h this arg)"

text \<open>\<^verbatim>\<open>eq\<close>. A Node object is truthy, so \<^verbatim>\<open>|| []\<close> applies to \<^verbatim>\<open>undefined\<close> only.\<close>

definition Wrapper_eq :: "nat \<Rightarrow> wrapper \<Rightarrow> jsval \<Rightarrow> error + wrapper" where
  "Wrapper_eq ROOT this index =
     (if \<not> isInteger index then Inl (InvariantViolation ''eq() requires an index'')
      else new_Wrapper ROOT
             (case js_nth (nodes this) (to_int index) of Some n \<Rightarrow> JNode n | None \<Rightarrow> JArray [])
             (Some this))"

text \<open>
  \<^verbatim>\<open>find\<close>. The callback given to \<^verbatim>\<open>reduce\<close> tests a node with the selector
  and appends it to the array when the test is truthy; \<^verbatim>\<open>lastIndex\<close> of the selector
  travels with the array, from one test to the next and from one node of the Wrapper to
  the next. \<open>Wrapper_find_st\<close> gives the new Wrapper and the selector as the call
  leaves it; \<open>Wrapper_find\<close> is the new Wrapper. For a call that throws, the result
  is the error alone.
\<close>

definition Wrapper_find_st ::
  "nat \<Rightarrow> nat \<Rightarrow> heap \<Rightarrow> wrapper \<Rightarrow> jsval \<Rightarrow> (error + wrapper \<times> jsval) option" where
  "Wrapper_find_st ROOT d h this sel =
     (case getSelector sel of
        None \<Rightarrow> Some (Inl TypeError)
      | Some selector \<Rightarrow>
          (case foldM (\<lambda>(found, i) n.
                    case Node_reduce d h
                           (\<lambda>(a, i) n. let (b, j) = selector i h n
                                        in (if b then a @ [n] else a, j))
                           ([], i) n of
                      None \<Rightarrow> None
                    | Some (Inl e) \<Rightarrow> Some (Inl e)
                    | Some (Inr (a, j)) \<Rightarrow> Some (Inr (found @ a, j)))
                  ([], selector_lastIndex sel) (nodes this) of
             None \<Rightarrow> None
           | Some (Inl e) \<Rightarrow> Some (Inl e)
           | Some (Inr (found, i)) \<Rightarrow>
               Some (case new_Wrapper ROOT (JArray (map JNode (uniq found))) (Some this) of
                       Inl e \<Rightarrow> Inl e
                     | Inr w \<Rightarrow> Inr (w, with_lastIndex sel i))))"

definition Wrapper_find ::
  "nat \<Rightarrow> nat \<Rightarrow> heap \<Rightarrow> wrapper \<Rightarrow> jsval \<Rightarrow> (error + wrapper) option" where
  "Wrapper_find ROOT d h this sel =
     map_option (map_sum id fst) (Wrapper_find_st ROOT d h this sel)"

text \<open>
  \<^verbatim>\<open>next\<close>. The callback of \<^verbatim>\<open>_.flatMap\<close> reads \<^verbatim>\<open>this.index()\<close>, the index of
  the first node of the Wrapper, whatever node \<^verbatim>\<open>n\<close> it is called with.
\<close>

definition next_of :: "nat \<Rightarrow> heap \<Rightarrow> wrapper \<Rightarrow> nat \<Rightarrow> error + nat list" where
  "next_of ROOT h this n =
     (case Wrapper_index ROOT h this Undefined of
        Inl e \<Rightarrow> Inl e
      | Inr index \<Rightarrow>
          if index \<ge> 0
          then (case parent (h ! n) of
                  None \<Rightarrow> Inl TypeError
                | Some p \<Rightarrow>
                    (case children (h ! p) of
                       None \<Rightarrow> Inl TypeError
                     | Some cs \<Rightarrow>
                         if index < int (length cs) - 1 then Inr [cs ! nat (index + 1)]
                         else Inr []))
          else Inr [])"

text \<open>
  \<open>Wrapper_next_st\<close> gives the new Wrapper and the selector as the call leaves it;
  \<open>Wrapper_next\<close> is the new Wrapper. A throw comes before the first test of the
  selector.
\<close>

definition Wrapper_next_st ::
  "nat \<Rightarrow> heap \<Rightarrow> wrapper \<Rightarrow> jsval \<Rightarrow> error + wrapper \<times> jsval" where
  "Wrapper_next_st ROOT h this sel =
     (case getSelector sel of
        None \<Rightarrow> Inl TypeError
      | Some selector \<Rightarrow>
          (case mapE (next_of ROOT h this) (nodes this) of
             Inl e \<Rightarrow> Inl e
           | Inr found \<Rightarrow>
               (case Wrapper_filter0 ROOT h this (concat found) selector
                       (selector_lastIndex sel) of
                  (Inl e, i) \<Rightarrow> Inl e
                | (Inr w, i) \<Rightarrow> Inr (w, with_lastIndex sel i))))"

definition Wrapper_next :: "nat \<Rightarrow> heap \<Rightarrow> wrapper \<Rightarrow> jsval \<Rightarrow> error + wrapper" where
  "Wrapper_next ROOT h this sel = map_sum id fst (Wrapper_next_st ROOT h this sel)"

section \<open>Mutation\<close>

text \<open>
  Each loop runs over \<^verbatim>\<open>this.nodes\<close> and splices the \<^verbatim>\<open>children\<close> array of the
  parent in the store. \<^verbatim>\<open>p.hasChildren\<close> reads a property of \<^verbatim>\<open>p\<close>: with
  \<^verbatim>\<open>p\<close> undefined it throws a TypeError, and the loop stops with the store as the
  earlier iterations left it.
\<close>

fun after_loop :: "nat \<Rightarrow> node_arg \<Rightarrow> nat list \<Rightarrow> heap \<Rightarrow> error option \<times> heap" where
  "after_loop ROOT arg [] h = (None, h)"
| "after_loop ROOT arg (n # ns) h =
     (case parent (h ! n) of
        None \<Rightarrow> (Some TypeError, h)
      | Some p \<Rightarrow>
          if \<not> hasChildren (node (h ! p)) then after_loop ROOT arg ns h
          else (case new_Wrapper ROOT (JNode n) None of
                  Inl e \<Rightarrow> (Some e, h)
                | Inr w \<Rightarrow>
                    (case Wrapper_index ROOT h w Undefined of
                       Inl e \<Rightarrow> (Some e, h)
                     | Inr i \<Rightarrow>
                         if i \<ge> 0
                         then (case children (h ! p) of
                                 None \<Rightarrow> (Some TypeError, h)
                               | Some cs \<Rightarrow>
                                   (let (c, h1) = Node_create arg (Some p) h
                                    in after_loop ROOT arg ns
                                         (h1[p := (h1 ! p)\<lparr>children :=
                                            Some (js_splice cs (nat (i + 1)) 0 [c])\<rparr>])))
                         else after_loop ROOT arg ns h)))"

fun before_loop :: "node_arg \<Rightarrow> nat list \<Rightarrow> heap \<Rightarrow> error option \<times> heap" where
  "before_loop arg [] h = (None, h)"
| "before_loop arg (n # ns) h =
     (case parent (h ! n) of
        None \<Rightarrow> (Some TypeError, h)
      | Some p \<Rightarrow>
          if \<not> hasChildren (node (h ! p)) then before_loop arg ns h
          else (case children (h ! p) of
                  None \<Rightarrow> (Some TypeError, h)
                | Some cs \<Rightarrow>
                    (let i = indexOf cs n
                     in if i \<ge> 0
                        then (let (c, h1) = Node_create arg (Some p) h
                              in before_loop arg ns
                                   (h1[p := (h1 ! p)\<lparr>children :=
                                      Some (js_splice cs (nat i) 0 [c])\<rparr>]))
                        else before_loop arg ns h)))"

fun remove_loop :: "nat list \<Rightarrow> heap \<Rightarrow> error option \<times> heap" where
  "remove_loop [] h = (None, h)"
| "remove_loop (n # ns) h =
     (case parent (h ! n) of
        None \<Rightarrow> (Some TypeError, h)
      | Some p \<Rightarrow>
          if \<not> hasChildren (node (h ! p)) then remove_loop ns h
          else (case children (h ! p) of
                  None \<Rightarrow> (Some TypeError, h)
                | Some cs \<Rightarrow>
                    (let i = indexOf cs n
                     in if i \<ge> 0
                        then remove_loop ns
                               (h[p := (h ! p)\<lparr>children := Some (js_splice cs (nat i) 1 [])\<rparr>])
                        else remove_loop ns h)))"

text \<open>The callback of \<^verbatim>\<open>replace\<close> receives the Node object and reads the store.\<close>

fun replace_loop ::
  "(heap \<Rightarrow> nat \<Rightarrow> node_arg) \<Rightarrow> nat list \<Rightarrow> heap \<Rightarrow> error option \<times> heap" where
  "replace_loop fn [] h = (None, h)"
| "replace_loop fn (n # ns) h =
     (case parent (h ! n) of
        None \<Rightarrow> (Some TypeError, h)
      | Some p \<Rightarrow>
          if \<not> hasChildren (node (h ! p)) then replace_loop fn ns h
          else (case children (h ! p) of
                  None \<Rightarrow> (Some TypeError, h)
                | Some cs \<Rightarrow>
                    (let i = indexOf cs n
                     in if i \<ge> 0
                        then (let (c, h1) = Node_create (fn h n) (Some p) h
                              in replace_loop fn ns
                                   (h1[p := (h1 ! p)\<lparr>children :=
                                      Some (js_splice cs (nat i) 1 [c])\<rparr>]))
                        else replace_loop fn ns h)))"

text \<open>Each method returns \<^verbatim>\<open>this\<close>.\<close>

definition returning :: "wrapper \<Rightarrow> error option \<times> heap \<Rightarrow> (error + wrapper) \<times> heap" where
  "returning this r = (case fst r of None \<Rightarrow> (Inr this, snd r) | Some e \<Rightarrow> (Inl e, snd r))"

definition Wrapper_after ::
  "nat \<Rightarrow> heap \<Rightarrow> wrapper \<Rightarrow> node_arg \<Rightarrow> (error + wrapper) \<times> heap" where
  "Wrapper_after ROOT h this arg = returning this (after_loop ROOT arg (nodes this) h)"

definition Wrapper_before :: "heap \<Rightarrow> wrapper \<Rightarrow> node_arg \<Rightarrow> (error + wrapper) \<times> heap" where
  "Wrapper_before h this arg = returning this (before_loop arg (nodes this) h)"

definition Wrapper_remove :: "heap \<Rightarrow> wrapper \<Rightarrow> (error + wrapper) \<times> heap" where
  "Wrapper_remove h this = returning this (remove_loop (nodes this) h)"

definition Wrapper_replace ::
  "heap \<Rightarrow> wrapper \<Rightarrow> (heap \<Rightarrow> nat \<Rightarrow> node_arg) \<Rightarrow> (error + wrapper) \<times> heap" where
  "Wrapper_replace h this fn = returning this (replace_loop fn (nodes this) h)"

section \<open>The session\<close>

text \<open>
  \<^verbatim>\<open>createQuery(ast)\<close> builds \<^verbatim>\<open>ROOT = Node.create(ast)\<close> in an empty store and
  returns \<^verbatim>\<open>(node) => $(node)\<close>. The session is the pair of \<^verbatim>\<open>ROOT\<close> and the store.
  The invariant that \<^verbatim>\<open>ast\<close> is a plain object holds by the type of the argument.
\<close>

definition createQuery :: "raw \<Rightarrow> nat \<times> heap" where
  "createQuery ast = Node_create (RawNode ast) None []"

definition query :: "nat \<Rightarrow> jsval \<Rightarrow> error + wrapper" where
  "query ROOT arg = new_Wrapper ROOT arg None"

section \<open>Serialisation of an unmutated tree\<close>

text \<open>
  What the default \<^verbatim>\<open>toJSON\<close> makes of a raw tree when it is applied bottom-up, as
  \<^verbatim>\<open>Node.prototype.toJSON\<close> does on the overlay built from that tree.
\<close>

fun normal_form :: "raw \<Rightarrow> raw" where
  "normal_form (Raw t (Text s)) = toJSON (Raw t (Text s)) None"
| "normal_form (Raw t (Items ks)) = toJSON (Raw t (Items ks)) (Some (map normal_form ks))"

text \<open>The number of nested calls \<^verbatim>\<open>toJSON\<close> and \<^verbatim>\<open>reduce\<close> need on a tree.\<close>

fun depth :: "raw \<Rightarrow> nat" where
  "depth (Raw t (Text s)) = 1"
| "depth (Raw t (Items ks)) = Suc (foldr max (map depth ks) 0)"

section \<open>Consistency of parents and children\<close>

text \<open>
  A Node object is well formed in a store when its parent is allocated, it has a
  \<^verbatim>\<open>children\<close> array exactly when \<^verbatim>\<open>hasChildren\<close> holds of its raw node, the array
  holds no Node twice, and every element is an allocated Node whose \<^verbatim>\<open>parent\<close> is the
  owner of the array.
\<close>

definition cell_ok :: "heap \<Rightarrow> nat \<Rightarrow> bool" where
  "cell_ok h q =
     ((\<forall>p. parent (h ! q) = Some p \<longrightarrow> p < length h)
      \<and> (case children (h ! q) of
            None \<Rightarrow> \<not> hasChildren (node (h ! q))
          | Some cs \<Rightarrow>
              hasChildren (node (h ! q)) \<and> distinct cs
              \<and> (\<forall>c\<in>set cs. c < length h \<and> parent (h ! c) = Some q)))"

definition overlay_ok :: "heap \<Rightarrow> bool" where
  "overlay_ok h = (\<forall>q<length h. cell_ok h q)"

text \<open>The Nodes of the tree: those reached from \<^verbatim>\<open>ROOT\<close> through \<^verbatim>\<open>children\<close>.\<close>

inductive attached :: "heap \<Rightarrow> nat \<Rightarrow> nat \<Rightarrow> bool" for h ROOT where
  root: "attached h ROOT ROOT"
| child: "attached h ROOT p \<Longrightarrow> children (h ! p) = Some cs \<Longrightarrow> c \<in> set cs \<Longrightarrow> attached h ROOT c"

text \<open>
  Every Node of the tree that has a parent occurs in the parent's \<^verbatim>\<open>children\<close>, at the
  position that \<^verbatim>\<open>$(n).index()\<close> returns; no \<^verbatim>\<open>children\<close> array of the tree holds a
  Node twice or a Node whose parent is another Node.
\<close>

definition consistent :: "nat \<Rightarrow> heap \<Rightarrow> bool" where
  "consistent ROOT h =
     ((\<forall>n p. attached h ROOT n \<and> parent (h ! n) = Some p \<longrightarrow>
         (\<exists>cs i. children (h ! p) = Some cs \<and> i < length cs \<and> cs ! i = n
            \<and> Wrapper_index ROOT h (Wrapper [n] None) Undefined = Inr (int i)))
      \<and> (\<forall>p cs. attached h ROOT p \<and> children (h ! p) = Some cs \<longrightarrow>
           distinct cs \<and> (\<forall>c\<in>set cs. attached h ROOT c \<and> parent (h ! c) = Some p)))"

text \<open>A later store keeps the Nodes of an earlier one and their parents.\<close>

definition frame :: "heap \<Rightarrow> heap \<Rightarrow> bool" where
  "frame h h' = (length h \<le> length h' \<and> (\<forall>q<length h. parent (h' ! q) = parent (h ! q)))"

section \<open>Example sessions\<close>

definition abc_tree :: raw where
  "abc_tree = Raw ''stylesheet''
     (Items [Raw ''rule'' (Text ''r''), Raw ''rule'' (Text ''g''), Raw ''rule'' (Text ''b'')])"

definition abc_heap :: heap where
  "abc_heap =
     [\<lparr>node = abc_tree, parent = None, children = Some [1, 2, 3]\<rparr>,
      \<lparr>node = Raw ''rule'' (Text ''r''), parent = Some 0, children = None\<rparr>,
      \<lparr>node = Raw ''rule'' (Text ''g''), parent = Some 0, children = None\<rparr>,
      \<lparr>node = Raw ''rule'' (Text ''b''), parent = Some 0, children = None\<rparr>]"

definition nested_tree :: raw where
  "nested_tree = Raw ''rule'' (Items [Raw ''rule'' (Text ''x'')])"

definition nested_heap :: heap where
  "nested_heap =
     [\<lparr>node = nested_tree, parent = None, children = Some [1]\<rparr>,
      \<lparr>node = Raw ''rule'' (Text ''x''), parent = Some 0, children = None\<rparr>]"

definition z_rule :: raw where
  "z_rule = Raw ''rule'' (Text ''z'')"

text \<open>
  The regular expression \<^verbatim>\<open>/rule/g\<close>: its pattern matches at an index when the
  four characters from there on are \<^verbatim>\<open>rule\<close>.
\<close>

definition literal :: "string \<Rightarrow> string \<Rightarrow> nat \<Rightarrow> nat option" where
  "literal pat s i =
     (if take (length pat) (drop i s) = pat then Some (i + length pat) else None)"

definition rule_g :: regexp where
  "rule_g = \<lparr>matcher = literal ''rule'', global = True, sticky = False, lastIndex = 0\<rparr>"

section \<open>The Wrapper constructor\<close>

lemma new_Wrapper_Node: "new_Wrapper ROOT (JNode a) prev = Inr (Wrapper [a] prev)"
  by (simp add: new_Wrapper_def)

lemma flatten_JNodes: "flatten (map JNode ns) = map JNode ns"
  by (induction ns) simp_all

lemma new_Wrapper_Nodes:
  "new_Wrapper ROOT (JArray (map JNode ns)) prev = Inr (Wrapper ns prev)"
  by (simp add: new_Wrapper_def flatten_JNodes list_all_iff comp_def)

lemma new_Wrapper_empty: "new_Wrapper ROOT (JArray []) prev = Inr (Wrapper [] prev)"
  using new_Wrapper_Nodes [of ROOT "[]" prev] by simp

lemma new_Wrapper_falsy: "falsy v \<Longrightarrow> new_Wrapper ROOT v prev = Inr (Wrapper [ROOT] prev)"
  by (simp add: new_Wrapper_def)

lemma isInteger_cases: "isInteger v \<Longrightarrow> \<exists>i. v = JNum (of_int i)"
  by (cases v) (auto intro: sym)

lemma mapM_all_ok:
  "\<forall>x\<in>set xs. f x = Some (Inr (g x)) \<Longrightarrow> mapM f xs = Some (Inr (map g xs))"
  by (induction xs) simp_all

lemma createQuery_abc: "createQuery abc_tree = (0, abc_heap)"
  by (simp add: createQuery_def abc_tree_def abc_heap_def)

lemma createQuery_nested: "createQuery nested_tree = (0, nested_heap)"
  by (simp add: createQuery_def nested_tree_def nested_heap_def)

section \<open>Building the overlay\<close>

text \<open>The constructor in the shape of the source, with the options by name.\<close>

lemma new_Node_unfold:
  "new_Node r p h =
     (let this = length h;
          h1 = h @ [\<lparr>node = r, parent = p, children = None\<rparr>]
      in if hasChildren r
         then (let (cs, h2) = new_Nodes (getChildren r) this h1
               in (this, h2[this := (h2 ! this)\<lparr>children := Some cs\<rparr>]))
         else (this, h1))"
  by (cases "(r, p, h)" rule: new_Node.cases) (simp_all add: hasChildren_def getChildren_def)

lemma new_Node_frame:
  "new_Node r p h = (a, h') \<Longrightarrow>
     a = length h \<and> length h < length h' \<and> (\<forall>q<length h. h' ! q = h ! q)"
  "new_Nodes ks this h = (cs, h') \<Longrightarrow>
     length h \<le> length h' \<and> (\<forall>q<length h. h' ! q = h ! q)
     \<and> (\<forall>c\<in>set cs. length h \<le> c \<and> c < length h')"
proof (induction r p h and ks this h arbitrary: a h' and cs h' rule: new_Node_new_Nodes.induct)
  case (1 t s p h)
  then show ?case by (auto simp: nth_append)
next
  case (2 t ks p h)
  let ?h1 = "h @ [\<lparr>node = Raw t (Items ks), parent = p, children = None\<rparr>]"
  obtain cs h2 where n: "new_Nodes ks (length h) ?h1 = (cs, h2)"
    by fastforce
  from "2.IH" [OF refl refl n]
  have "length h < length h2" "\<forall>q<Suc (length h). h2 ! q = ?h1 ! q"
    by auto
  with "2.prems" n show ?case
    by (auto simp: nth_append Let_def)
next
  case (3 this h)
  then show ?case by simp
next
  case (4 k ks this h)
  obtain c h1 where c: "new_Node k (Some this) h = (c, h1)" by fastforce
  obtain cs' h2 where cs: "new_Nodes ks this h1 = (cs', h2)" by fastforce
  note a = "4.IH"(1) [OF c]
  note b = "4.IH"(2) [OF c [symmetric] refl cs]
  from "4.prems" c cs have "cs = c # cs'" "h' = h2" by auto
  with a b show ?case by auto
qed

lemma cell_ok_mono:
  "cell_ok h q \<Longrightarrow> q < length h \<Longrightarrow> length h \<le> length h' \<Longrightarrow>
     (\<forall>x<length h. h' ! x = h ! x) \<Longrightarrow> cell_ok h' q"
  unfolding cell_ok_def by (auto split: option.splits)

lemma parent_update_children [simp]:
  "parent (h[p := (h ! p)\<lparr>children := X\<rparr>] ! c) = parent (h ! c)"
  by (cases "p < length h"; cases "c = p") (simp_all add: list_update_beyond)

lemma node_update_children [simp]:
  "node (h[p := (h ! p)\<lparr>children := X\<rparr>] ! c) = node (h ! c)"
  by (cases "p < length h"; cases "c = p") (simp_all add: list_update_beyond)

lemma cell_ok_update_other:
  "cell_ok h q \<Longrightarrow> q \<noteq> p \<Longrightarrow> cell_ok (h[p := (h ! p)\<lparr>children := X\<rparr>]) q"
  unfolding cell_ok_def
  by (auto split: option.splits)

lemma new_Node_ok:
  "new_Node r p h = (a, h') \<Longrightarrow> (\<forall>q. p = Some q \<longrightarrow> q < length h) \<Longrightarrow>
     (\<forall>q. length h \<le> q \<and> q < length h' \<longrightarrow> cell_ok h' q) \<and> parent (h' ! a) = p"
  "new_Nodes ks this h = (cs, h') \<Longrightarrow> this < length h \<Longrightarrow>
     (\<forall>q. length h \<le> q \<and> q < length h' \<longrightarrow> cell_ok h' q) \<and> distinct cs
     \<and> (\<forall>c\<in>set cs. parent (h' ! c) = Some this)"
proof (induction r p h and ks this h arbitrary: a h' and cs h' rule: new_Node_new_Nodes.induct)
  case (1 t s p h)
  then show ?case
    by (auto simp: cell_ok_def hasChildren_def nth_append less_Suc_eq)
next
  case (2 t ks p h)
  let ?h1 = "h @ [\<lparr>node = Raw t (Items ks), parent = p, children = None\<rparr>]"
  obtain cs h2 where n: "new_Nodes ks (length h) ?h1 = (cs, h2)"
    by fastforce
  from new_Node_frame(2) [OF n]
  have f: "length ?h1 \<le> length h2" "\<forall>q<length ?h1. h2 ! q = ?h1 ! q"
    "\<forall>c\<in>set cs. length ?h1 \<le> c \<and> c < length h2"
    by blast+
  from "2.prems"(1) n
  have a: "a = length h" and h': "h' = h2[length h := (h2 ! length h)\<lparr>children := Some cs\<rparr>]"
    by (auto simp: Let_def)
  from f have h2a: "h2 ! length h = \<lparr>node = Raw t (Items ks), parent = p, children = None\<rparr>"
    by simp
  from "2.IH" [OF refl refl n]
  have ih: "\<forall>q. length ?h1 \<le> q \<and> q < length h2 \<longrightarrow> cell_ok h2 q" "distinct cs"
    "\<forall>c\<in>set cs. parent (h2 ! c) = Some (length h)"
    by simp_all
  have "cell_ok h' q" if q: "length h \<le> q" "q < length h'" for q
  proof (cases "q = length h")
    case True
    show ?thesis
      using f ih(2,3) "2.prems"(2) h2a
      by (auto simp: True h' cell_ok_def hasChildren_def nth_list_update)
  next
    case False
    with q ih(1) have "cell_ok h2 q" by (simp add: h')
    from cell_ok_update_other [OF this False] show ?thesis by (simp add: h')
  qed
  moreover have "parent (h' ! a) = p"
    using f h2a by (simp add: a h')
  ultimately show ?case by blast
next
  case (3 this h)
  then show ?case by auto
next
  case (4 k ks this h)
  obtain c h1 where c: "new_Node k (Some this) h = (c, h1)" by fastforce
  obtain cs' h2 where cs: "new_Nodes ks this h1 = (cs', h2)" by fastforce
  from "4.prems"(1) c cs have e: "cs = c # cs'" "h' = h2" by auto
  from new_Node_frame(1) [OF c]
  have f1: "c = length h" "length h < length h1" "\<forall>q<length h. h1 ! q = h ! q" by blast+
  from new_Node_frame(2) [OF cs]
  have f2: "length h1 \<le> length h2" "\<forall>q<length h1. h2 ! q = h1 ! q"
    "\<forall>x\<in>set cs'. length h1 \<le> x \<and> x < length h2" by blast+
  from "4.IH"(1) [OF c] "4.prems"(2)
  have ih1: "\<forall>q. length h \<le> q \<and> q < length h1 \<longrightarrow> cell_ok h1 q" "parent (h1 ! c) = Some this"
    by simp_all
  from "4.prems"(2) f1 have "this < length h1" by simp
  from "4.IH"(2) [OF c [symmetric] refl cs this]
  have ih2: "\<forall>q. length h1 \<le> q \<and> q < length h2 \<longrightarrow> cell_ok h2 q" "distinct cs'"
    "\<forall>x\<in>set cs'. parent (h2 ! x) = Some this"
    by simp_all
  have "cell_ok h2 q" if q: "length h \<le> q" "q < length h2" for q
  proof (cases "q < length h1")
    case True
    with q ih1(1) have "cell_ok h1 q" by simp
    from cell_ok_mono [OF this True f2(1,2)] show ?thesis .
  next
    case False
    with q ih2(1) show ?thesis by simp
  qed
  moreover have "c \<notin> set cs'"
    using f1 f2(3) by auto
  moreover have "parent (h2 ! c) = Some this"
    using ih1(2) f1 f2(2) by simp
  ultimately show ?case
    using ih2(2,3) by (simp add: e)
qed

lemma set_children_ok:
  assumes "overlay_ok h" "p < length h" "hasChildren (node (h ! p))" "distinct cs"
    "\<forall>c\<in>set cs. c < length h \<and> parent (h ! c) = Some p"
  shows "overlay_ok (h[p := (h ! p)\<lparr>children := Some cs\<rparr>])"
  unfolding overlay_ok_def
proof (intro allI impI)
  fix q
  assume "q < length (h[p := (h ! p)\<lparr>children := Some cs\<rparr>])"
  then have q: "q < length h" by simp
  with assms(1) have c: "cell_ok h q" by (simp add: overlay_ok_def)
  show "cell_ok (h[p := (h ! p)\<lparr>children := Some cs\<rparr>]) q"
  proof (cases "q = p")
    case True
    with c assms(2-5) show ?thesis
      by (simp add: cell_ok_def)
  next
    case False
    from cell_ok_update_other [OF c False] show ?thesis .
  qed
qed

lemma new_Node_overlay:
  assumes "overlay_ok h" "p < length h" "new_Node r (Some p) h = (c, h1)"
  shows "overlay_ok h1 \<and> c = length h \<and> length h < length h1
     \<and> (\<forall>q<length h. h1 ! q = h ! q) \<and> parent (h1 ! c) = Some p"
proof -
  from new_Node_frame(1) [OF assms(3)]
  have f: "c = length h" "length h < length h1" "\<forall>q<length h. h1 ! q = h ! q"
    by blast+
  from new_Node_ok(1) [OF assms(3)] assms(2)
  have n: "\<forall>q. length h \<le> q \<and> q < length h1 \<longrightarrow> cell_ok h1 q" "parent (h1 ! c) = Some p"
    by simp_all
  have "cell_ok h1 q" if "q < length h1" for q
  proof (cases "q < length h")
    case True
    with assms(1) have "cell_ok h q" by (simp add: overlay_ok_def)
    from cell_ok_mono [OF this True _ f(3)] f(2) show ?thesis by simp
  next
    case False
    with that n(1) show ?thesis by simp
  qed
  with f n(2) show ?thesis
    by (simp add: overlay_ok_def)
qed

lemma createQuery_ok:
  assumes "createQuery ast = (ROOT, h)"
  shows "overlay_ok h \<and> ROOT = 0 \<and> ROOT < length h \<and> parent (h ! ROOT) = None"
proof -
  from assms have n: "new_Node ast None [] = (ROOT, h)"
    by (simp add: createQuery_def)
  from new_Node_frame(1) [OF n] new_Node_ok(1) [OF n] show ?thesis
    by (simp add: overlay_ok_def)
qed

lemma abc_heap_ok: "overlay_ok abc_heap"
  using createQuery_ok [OF createQuery_abc] by simp

section \<open>find\<close>

text \<open>
  C1. \<^verbatim>\<open>find\<close> reduces each node of the Wrapper with \<^verbatim>\<open>Node.prototype.reduce\<close>, which
  ends with the node itself. In the session of \<open>nested_tree\<close>, a rule that holds one
  rule, \<^verbatim>\<open>$().find('rule')\<close> returns the inner rule and then \<^verbatim>\<open>ROOT\<close>, the node the
  search started from, which is no descendant of itself.
\<close>

theorem find_returns_start_node:
  "createQuery nested_tree = (0, nested_heap)
   \<and> query 0 Undefined = Inr (Wrapper [0] None)
   \<and> Wrapper_find 0 2 nested_heap (Wrapper [0] None) (JStr ''rule'')
       = Some (Inr (Wrapper [1, 0] (Some (Wrapper [0] None))))"
proof -
  have "Wrapper_find 0 2 nested_heap (Wrapper [0] None) (JStr ''rule'')
       = Some (Inr (Wrapper [1, 0] (Some (Wrapper [0] None))))"
    by (simp add: new_Wrapper_def Wrapper_find_def Wrapper_find_st_def getSelector_def
        nested_heap_def nested_tree_def hasChildren_def getType_def eval_nat_numeral)
  then show ?thesis
    by (simp add: createQuery_nested query_def new_Wrapper_def)
qed

section \<open>Mutation of a Wrapper that holds the root\<close>

text \<open>
  C2. The parent of \<^verbatim>\<open>ROOT\<close> is \<^verbatim>\<open>undefined\<close>, and each mutation loop reads
  \<^verbatim>\<open>p.hasChildren\<close> before anything else. In the session of \<open>abc_tree\<close>,
  \<^verbatim>\<open>remove\<close>, \<^verbatim>\<open>after\<close> and \<^verbatim>\<open>before\<close> on the root Wrapper end in a TypeError
  and leave the store as it was.
\<close>

theorem mutation_of_root_throws:
  "createQuery abc_tree = (0, abc_heap)
   \<and> query 0 Undefined = Inr (Wrapper [0] None)
   \<and> Wrapper_remove abc_heap (Wrapper [0] None) = (Inl TypeError, abc_heap)
   \<and> Wrapper_after 0 abc_heap (Wrapper [0] None) (RawNode (Raw ''rule'' (Text ''z'')))
        = (Inl TypeError, abc_heap)
   \<and> Wrapper_before abc_heap (Wrapper [0] None) (RawNode (Raw ''rule'' (Text ''z'')))
        = (Inl TypeError, abc_heap)"
  by (simp add: createQuery_abc query_def new_Wrapper_def Wrapper_remove_def Wrapper_after_def
      Wrapper_before_def returning_def abc_heap_def)

section \<open>next\<close>

text \<open>
  C3. In the session of \<open>abc_tree\<close> the three rules are the Nodes 1, 2 and 3, in
  this order under \<^verbatim>\<open>ROOT\<close>, and \<^verbatim>\<open>$().find('rule')\<close> is the Wrapper of the three.
  \<^verbatim>\<open>next\<close> on it returns Node 2 three times: the sibling after the first node of the
  Wrapper, for every node. The sibling after Node 2 is Node 3, and Node 3 has none.
\<close>

theorem next_uses_first_index:
  "createQuery abc_tree = (0, abc_heap)
   \<and> Wrapper_find 0 2 abc_heap (Wrapper [0] None) (JStr ''rule'')
       = Some (Inr (Wrapper [1, 2, 3] (Some (Wrapper [0] None))))
   \<and> Wrapper_next 0 abc_heap (Wrapper [1, 2, 3] (Some (Wrapper [0] None))) Undefined
       = Inr (Wrapper [2, 2, 2] (Some (Wrapper [1, 2, 3] (Some (Wrapper [0] None)))))"
proof -
  have "Wrapper_find 0 2 abc_heap (Wrapper [0] None) (JStr ''rule'')
       = Some (Inr (Wrapper [1, 2, 3] (Some (Wrapper [0] None))))"
    by (simp add: new_Wrapper_def Wrapper_find_def Wrapper_find_st_def getSelector_def
        abc_heap_def abc_tree_def hasChildren_def getType_def eval_nat_numeral)
  moreover have "Wrapper_next 0 abc_heap (Wrapper [1, 2, 3] (Some (Wrapper [0] None))) Undefined
       = Inr (Wrapper [2, 2, 2] (Some (Wrapper [1, 2, 3] (Some (Wrapper [0] None)))))"
    by (simp add: Wrapper_next_def Wrapper_next_st_def next_of_def Wrapper_index_def
        Wrapper_index_st_def getSelector_def Wrapper_filter0_def new_Wrapper_def
        abc_heap_def abc_tree_def hasChildren_def)
  ultimately show ?thesis
    by (simp add: createQuery_abc)
qed

section \<open>The query function\<close>

text \<open>
  The query function called with a raw node fails the invariant of the Wrapper
  constructor.
\<close>

theorem query_raw_counterexample:
  "createQuery abc_tree = (0, abc_heap)
   \<and> query 0 (JObject (Raw ''rule'' (Text ''g'')))
       = Inl (InvariantViolation ''Only Node instances can be passed in to a Wrapper'')"
  by (simp add: createQuery_abc query_def new_Wrapper_def)

text \<open>
  C4, as amended. The query function without an argument returns the Wrapper of
  \<^verbatim>\<open>ROOT\<close>; with a Node object it returns the Wrapper of that Node; with an array of
  Node objects it returns the Wrapper of exactly these, in order. A raw node, or an array
  that holds a raw node, fails the invariant
  \<^verbatim>\<open>Only Node instances can be passed in to a Wrapper\<close>.
\<close>

theorem query_scope:
  "query ROOT Undefined = Inr (Wrapper [ROOT] None)
   \<and> query ROOT (JNode a) = Inr (Wrapper [a] None)
   \<and> query ROOT (JArray (map JNode ns)) = Inr (Wrapper ns None)
   \<and> query ROOT (JObject r)
       = Inl (InvariantViolation ''Only Node instances can be passed in to a Wrapper'')
   \<and> (JObject r \<in> set vs \<longrightarrow>
        query ROOT (JArray vs)
          = Inl (InvariantViolation ''Only Node instances can be passed in to a Wrapper''))"
proof -
  have "\<not> isNode (JObject r)"
    by simp
  then have "JObject r \<in> set vs \<Longrightarrow> \<not> list_all isNode vs"
    unfolding list_all_iff by blast
  then show ?thesis
    by (simp add: query_def new_Wrapper_Node new_Wrapper_Nodes new_Wrapper_falsy)
       (simp add: new_Wrapper_def)
qed

theorem query_scope_witness:
  "query 0 (JArray [JNode 1, JObject (Raw ''rule'' (Text ''g''))])
     = Inl (InvariantViolation ''Only Node instances can be passed in to a Wrapper'')"
  using query_scope [of 0 0 "[]" "Raw ''rule'' (Text ''g'')"
      "[JNode 1, JObject (Raw ''rule'' (Text ''g''))]"]
  by simp

text \<open>
  C10. The query function called with a falsy argument returns the Wrapper of
  \<^verbatim>\<open>ROOT\<close> alone, as it does without an argument.
\<close>

theorem query_falsy:
  "falsy arg \<Longrightarrow>
     query ROOT arg = query ROOT Undefined \<and> query ROOT arg = Inr (Wrapper [ROOT] None)"
  by (simp add: query_def new_Wrapper_falsy)

theorem query_falsy_witness:
  "query 0 (JNum 0) = Inr (Wrapper [0] None)
   \<and> query 0 (JStr []) = Inr (Wrapper [0] None)
   \<and> query 0 (JBool False) = Inr (Wrapper [0] None)
   \<and> query 0 Null = Inr (Wrapper [0] None)"
proof -
  have f: "falsy (JNum 0)" "falsy (JStr [])" "falsy (JBool False)" "falsy Null"
    by simp_all
  show ?thesis
    using query_falsy [OF f(1), of 0] query_falsy [OF f(2), of 0]
      query_falsy [OF f(3), of 0] query_falsy [OF f(4), of 0]
    by blast
qed

section \<open>Mutation keeps parents and children consistent\<close>

lemma indexOf_ge: "- 1 \<le> indexOf xs x"
  by (induction xs) (simp_all add: Let_def)

lemma indexOf_nth: "0 \<le> indexOf xs x \<Longrightarrow> nat (indexOf xs x) < length xs \<and> xs ! nat (indexOf xs x) = x"
proof (induction xs)
  case Nil
  then show ?case by simp
next
  case (Cons y ys)
  show ?case
  proof (cases "y = x")
    case True
    then show ?thesis by simp
  next
    case False
    with Cons.prems have i: "0 \<le> indexOf ys x" "indexOf (y # ys) x = indexOf ys x + 1"
      by (simp_all add: Let_def split: if_splits)
    with Cons.IH have "nat (indexOf ys x) < length ys \<and> ys ! nat (indexOf ys x) = x"
      by simp
    with i show ?thesis
      by (simp add: nat_add_distrib)
  qed
qed


lemma indexOf_mem: "x \<in> set xs \<Longrightarrow> 0 \<le> indexOf xs x"
proof (induction xs)
  case Nil
  then show ?case by simp
next
  case (Cons y ys)
  show ?case
  proof (cases "y = x")
    case True
    then show ?thesis by simp
  next
    case False
    with Cons have "0 \<le> indexOf ys x" by simp
    with False show ?thesis by (simp add: Let_def)
  qed
qed

lemma js_splice_distinct:
  "distinct xs \<Longrightarrow> distinct items \<Longrightarrow> set items \<inter> set xs = {} \<Longrightarrow>
     distinct (js_splice xs i k items) \<and> set (js_splice xs i k items) \<subseteq> set items \<union> set xs"
proof -
  assume d: "distinct xs" "distinct items" "set items \<inter> set xs = {}"
  have "distinct (take i xs @ drop i xs)"
    using d(1) by simp
  then have "set (take i xs) \<inter> set (drop i xs) = {}"
    unfolding distinct_append by (rule conjunct2 [THEN conjunct2])
  moreover have "set (drop (i + k) xs) \<subseteq> set (drop i xs)"
    by (rule set_drop_subset_set_drop) simp
  ultimately have a: "set (take i xs) \<inter> set (drop (i + k) xs) = {}"
    by blast
  have b: "set (take i xs) \<subseteq> set xs" "set (drop (i + k) xs) \<subseteq> set xs"
    by (rule set_take_subset, rule set_drop_subset)
  have c: "distinct (take i xs)" "distinct (drop (i + k) xs)"
    using d(1) by (rule distinct_take, rule distinct_drop)
  have "distinct (take i xs @ items @ drop (i + k) xs)"
    unfolding distinct_append set_append
    using a b c d(2,3) by blast
  moreover have "set (take i xs @ items @ drop (i + k) xs) \<subseteq> set items \<union> set xs"
    unfolding set_append using b by blast
  ultimately show ?thesis
    unfolding js_splice_def by (rule conjI)
qed

lemma insert_step:
  assumes "overlay_ok h" "p < length h" "children (h ! p) = Some cs"
    "new_Node r (Some p) h = (c, h1)"
  shows "overlay_ok (h1[p := (h1 ! p)\<lparr>children := Some (js_splice cs i k [c])\<rparr>])
     \<and> length h \<le> length (h1[p := (h1 ! p)\<lparr>children := Some (js_splice cs i k [c])\<rparr>])
     \<and> (\<forall>q<length h.
          parent (h1[p := (h1 ! p)\<lparr>children := Some (js_splice cs i k [c])\<rparr>] ! q)
            = parent (h ! q))"
proof -
  from new_Node_overlay [OF assms(1,2,4)]
  have n: "overlay_ok h1" "c = length h" "length h < length h1"
    "\<forall>q<length h. h1 ! q = h ! q" "parent (h1 ! c) = Some p"
    by blast+
  from assms(1,2) have "cell_ok h p" by (simp add: overlay_ok_def)
  with assms(3) have cs: "hasChildren (node (h ! p))" "distinct cs"
    "\<forall>x\<in>set cs. x < length h \<and> parent (h ! x) = Some p"
    by (simp_all add: cell_ok_def)
  from cs(3) n(2) have "set [c] \<inter> set cs = {}" by auto
  from js_splice_distinct [OF cs(2) _ this, of i k]
  have s: "distinct (js_splice cs i k [c])" "set (js_splice cs i k [c]) \<subseteq> insert c (set cs)"
    by simp_all
  have "\<forall>x\<in>set (js_splice cs i k [c]). x < length h1 \<and> parent (h1 ! x) = Some p"
    using s(2) cs(3) n(2-5) by fastforce
  from set_children_ok [OF n(1) _ _ s(1) this] assms(2) n(3,4) cs(1)
  have "overlay_ok (h1[p := (h1 ! p)\<lparr>children := Some (js_splice cs i k [c])\<rparr>])"
    by simp
  then show ?thesis
    using n(3,4) by simp
qed

lemma delete_step:
  assumes "overlay_ok h" "p < length h" "children (h ! p) = Some cs"
  shows "overlay_ok (h[p := (h ! p)\<lparr>children := Some (js_splice cs i k [])\<rparr>])"
proof -
  from assms(1,2) have "cell_ok h p" by (simp add: overlay_ok_def)
  with assms(3) have cs: "hasChildren (node (h ! p))" "distinct cs"
    "\<forall>x\<in>set cs. x < length h \<and> parent (h ! x) = Some p"
    by (simp_all add: cell_ok_def)
  from js_splice_distinct [OF cs(2), of "[]" i k]
  have s: "distinct (js_splice cs i k [])" "set (js_splice cs i k []) \<subseteq> set cs"
    by simp_all
  have "\<forall>x\<in>set (js_splice cs i k []). x < length h \<and> parent (h ! x) = Some p"
    using s(2) cs(3) by blast
  from set_children_ok [OF assms(1,2) cs(1) s(1) this] show ?thesis .
qed

lemma parent_allocated:
  "overlay_ok h \<Longrightarrow> n < length h \<Longrightarrow> parent (h ! n) = Some p \<Longrightarrow> p < length h"
  by (simp add: overlay_ok_def cell_ok_def)

lemma index_of_single:
  "parent (h ! n) = Some p \<Longrightarrow> hasChildren (node (h ! p)) \<Longrightarrow> children (h ! p) = Some cs \<Longrightarrow>
     Wrapper_index ROOT h (Wrapper [n] None) Undefined = Inr (indexOf cs n)"
  by (simp add: Wrapper_index_def Wrapper_index_st_def)

lemma frame_refl: "frame h h"
  by (simp add: frame_def)

lemma frame_trans: "frame h h1 \<Longrightarrow> frame h1 h2 \<Longrightarrow> frame h h2"
  by (simp add: frame_def)

lemma frame_valid: "frame h h' \<Longrightarrow> \<forall>n\<in>set ns. n < length h \<Longrightarrow> \<forall>n\<in>set ns. n < length h'"
  by (auto simp: frame_def)

lemma insert_step_frame:
  assumes "overlay_ok h" "p < length h" "children (h ! p) = Some cs"
    "new_Node r (Some p) h = (c, h1)"
  shows "overlay_ok (h1[p := (h1 ! p)\<lparr>children := Some (js_splice cs i k [c])\<rparr>])"
    and "frame h (h1[p := (h1 ! p)\<lparr>children := Some (js_splice cs i k [c])\<rparr>])"
  using insert_step [OF assms, of i k] by (simp_all add: frame_def)

lemma delete_step_frame: "frame h (h[p := (h ! p)\<lparr>children := X\<rparr>])"
  by (simp add: frame_def)

lemma after_loop_ok:
  "overlay_ok h \<Longrightarrow> \<forall>n\<in>set ns. n < length h \<Longrightarrow>
     overlay_ok (snd (after_loop ROOT (RawNode r) ns h))
     \<and> frame h (snd (after_loop ROOT (RawNode r) ns h))"
proof (induction ns arbitrary: h)
  case Nil
  then show ?case by (simp add: frame_refl)
next
  case (Cons n ns)
  from Cons.prems have n: "n < length h" and ns: "\<forall>n\<in>set ns. n < length h"
    by simp_all
  show ?case
  proof (cases "parent (h ! n)")
    case None
    with Cons.prems show ?thesis by (simp add: frame_refl)
  next
    case (Some p)
    from parent_allocated [OF Cons.prems(1) n Some] have p: "p < length h" .
    show ?thesis
    proof (cases "hasChildren (node (h ! p))")
      case False
      with Some Cons.IH [OF Cons.prems(1) ns] show ?thesis by simp
    next
      case True
      show ?thesis
      proof (cases "children (h ! p)")
        case None
        with Some True Cons.prems(1) show ?thesis
          by (simp add: new_Wrapper_Node Wrapper_index_def Wrapper_index_st_def frame_refl)
      next
        case cs: (Some cs)
        note ix = index_of_single [OF Some True cs, of ROOT]
        show ?thesis
        proof (cases "0 \<le> indexOf cs n")
          case False
          with Some True cs ix Cons.IH [OF Cons.prems(1) ns] show ?thesis
            by (simp add: new_Wrapper_Node)
        next
          case i: True
          obtain c h1 where c: "new_Node r (Some p) h = (c, h1)" by fastforce
          let ?h2 = "h1[p := (h1 ! p)\<lparr>children :=
                       Some (js_splice cs (nat (indexOf cs n + 1)) 0 [c])\<rparr>]"
          note s = insert_step_frame [OF Cons.prems(1) p cs c, of "nat (indexOf cs n + 1)" 0]
          from Cons.IH [OF s(1) frame_valid [OF s(2) ns]]
          have "overlay_ok (snd (after_loop ROOT (RawNode r) ns ?h2))"
            "frame ?h2 (snd (after_loop ROOT (RawNode r) ns ?h2))"
            by blast+
          moreover have "after_loop ROOT (RawNode r) (n # ns) h = after_loop ROOT (RawNode r) ns ?h2"
            using Some True cs ix i c by (simp add: new_Wrapper_Node)
          ultimately show ?thesis
            using frame_trans [OF s(2)] by simp
        qed
      qed
    qed
  qed
qed

lemma before_loop_ok:
  "overlay_ok h \<Longrightarrow> \<forall>n\<in>set ns. n < length h \<Longrightarrow>
     overlay_ok (snd (before_loop (RawNode r) ns h))
     \<and> frame h (snd (before_loop (RawNode r) ns h))"
proof (induction ns arbitrary: h)
  case Nil
  then show ?case by (simp add: frame_refl)
next
  case (Cons n ns)
  from Cons.prems have n: "n < length h" and ns: "\<forall>n\<in>set ns. n < length h"
    by simp_all
  show ?case
  proof (cases "parent (h ! n)")
    case None
    with Cons.prems show ?thesis by (simp add: frame_refl)
  next
    case (Some p)
    from parent_allocated [OF Cons.prems(1) n Some] have p: "p < length h" .
    show ?thesis
    proof (cases "hasChildren (node (h ! p))")
      case False
      with Some Cons.IH [OF Cons.prems(1) ns] show ?thesis by simp
    next
      case True
      show ?thesis
      proof (cases "children (h ! p)")
        case None
        with Some True Cons.prems(1) show ?thesis
          by (simp add: frame_refl)
      next
        case cs: (Some cs)
        show ?thesis
        proof (cases "0 \<le> indexOf cs n")
          case False
          with Some True cs Cons.IH [OF Cons.prems(1) ns] show ?thesis
            by (simp add: Let_def)
        next
          case i: True
          obtain c h1 where c: "new_Node r (Some p) h = (c, h1)" by fastforce
          let ?h2 = "h1[p := (h1 ! p)\<lparr>children := Some (js_splice cs (nat (indexOf cs n)) 0 [c])\<rparr>]"
          note s = insert_step_frame [OF Cons.prems(1) p cs c, of "nat (indexOf cs n)" 0]
          from Cons.IH [OF s(1) frame_valid [OF s(2) ns]]
          have "overlay_ok (snd (before_loop (RawNode r) ns ?h2))"
            "frame ?h2 (snd (before_loop (RawNode r) ns ?h2))"
            by blast+
          moreover have "before_loop (RawNode r) (n # ns) h = before_loop (RawNode r) ns ?h2"
            using Some True cs i c by (simp add: Let_def)
          ultimately show ?thesis
            using frame_trans [OF s(2)] by simp
        qed
      qed
    qed
  qed
qed

lemma replace_loop_ok:
  "overlay_ok h \<Longrightarrow> \<forall>n\<in>set ns. n < length h \<Longrightarrow>
     overlay_ok (snd (replace_loop (\<lambda>g n. RawNode (f g n)) ns h))
     \<and> frame h (snd (replace_loop (\<lambda>g n. RawNode (f g n)) ns h))"
proof (induction ns arbitrary: h)
  case Nil
  then show ?case by (simp add: frame_refl)
next
  case (Cons n ns)
  from Cons.prems have n: "n < length h" and ns: "\<forall>n\<in>set ns. n < length h"
    by simp_all
  show ?case
  proof (cases "parent (h ! n)")
    case None
    with Cons.prems show ?thesis by (simp add: frame_refl)
  next
    case (Some p)
    from parent_allocated [OF Cons.prems(1) n Some] have p: "p < length h" .
    show ?thesis
    proof (cases "hasChildren (node (h ! p))")
      case False
      with Some Cons.IH [OF Cons.prems(1) ns] show ?thesis by simp
    next
      case True
      show ?thesis
      proof (cases "children (h ! p)")
        case None
        with Some True Cons.prems(1) show ?thesis
          by (simp add: frame_refl)
      next
        case cs: (Some cs)
        show ?thesis
        proof (cases "0 \<le> indexOf cs n")
          case False
          with Some True cs Cons.IH [OF Cons.prems(1) ns] show ?thesis
            by (simp add: Let_def)
        next
          case i: True
          obtain c h1 where c: "new_Node (f h n) (Some p) h = (c, h1)" by fastforce
          let ?h2 = "h1[p := (h1 ! p)\<lparr>children := Some (js_splice cs (nat (indexOf cs n)) 1 [c])\<rparr>]"
          note s = insert_step_frame [OF Cons.prems(1) p cs c, of "nat (indexOf cs n)" 1]
          from Cons.IH [OF s(1) frame_valid [OF s(2) ns]]
          have "overlay_ok (snd (replace_loop (\<lambda>g n. RawNode (f g n)) ns ?h2))"
            "frame ?h2 (snd (replace_loop (\<lambda>g n. RawNode (f g n)) ns ?h2))"
            by blast+
          moreover have "replace_loop (\<lambda>g n. RawNode (f g n)) (n # ns) h
              = replace_loop (\<lambda>g n. RawNode (f g n)) ns ?h2"
            using Some True cs i c by (simp add: Let_def)
          ultimately show ?thesis
            using frame_trans [OF s(2)] by simp
        qed
      qed
    qed
  qed
qed

lemma remove_loop_ok:
  "overlay_ok h \<Longrightarrow> \<forall>n\<in>set ns. n < length h \<Longrightarrow>
     overlay_ok (snd (remove_loop ns h)) \<and> frame h (snd (remove_loop ns h))"
proof (induction ns arbitrary: h)
  case Nil
  then show ?case by (simp add: frame_refl)
next
  case (Cons n ns)
  from Cons.prems have n: "n < length h" and ns: "\<forall>n\<in>set ns. n < length h"
    by simp_all
  show ?case
  proof (cases "parent (h ! n)")
    case None
    with Cons.prems show ?thesis by (simp add: frame_refl)
  next
    case (Some p)
    from parent_allocated [OF Cons.prems(1) n Some] have p: "p < length h" .
    show ?thesis
    proof (cases "hasChildren (node (h ! p))")
      case False
      with Some Cons.IH [OF Cons.prems(1) ns] show ?thesis by simp
    next
      case True
      show ?thesis
      proof (cases "children (h ! p)")
        case None
        with Some True Cons.prems(1) show ?thesis
          by (simp add: frame_refl)
      next
        case cs: (Some cs)
        show ?thesis
        proof (cases "0 \<le> indexOf cs n")
          case False
          with Some True cs Cons.IH [OF Cons.prems(1) ns] show ?thesis
            by (simp add: Let_def)
        next
          case i: True
          let ?h2 = "h[p := (h ! p)\<lparr>children := Some (js_splice cs (nat (indexOf cs n)) 1 [])\<rparr>]"
          note s = delete_step [OF Cons.prems(1) p cs, of "nat (indexOf cs n)" 1]
          have fr: "frame h ?h2" by (rule delete_step_frame)
          from Cons.IH [OF s frame_valid [OF fr ns]]
          have "overlay_ok (snd (remove_loop ns ?h2))" "frame ?h2 (snd (remove_loop ns ?h2))"
            by blast+
          moreover have "remove_loop (n # ns) h = remove_loop ns ?h2"
            using Some True cs i by (simp add: Let_def)
          ultimately show ?thesis
            using frame_trans [OF fr] by simp
        qed
      qed
    qed
  qed
qed

lemma attached_allocated:
  "attached h ROOT n \<Longrightarrow> overlay_ok h \<Longrightarrow> ROOT < length h \<Longrightarrow> n < length h"
proof (induction rule: attached.induct)
  case root
  then show ?case by simp
next
  case (child p cs c)
  then have "cell_ok h p" by (simp add: overlay_ok_def)
  with child.hyps(2,3) show ?case by (simp add: cell_ok_def)
qed

lemma overlay_ok_consistent:
  assumes ok: "overlay_ok h" and r: "ROOT < length h" "parent (h ! ROOT) = None"
  shows "consistent ROOT h"
proof -
  have cell: "hasChildren (node (h ! p)) \<and> distinct cs
      \<and> (\<forall>c\<in>set cs. c < length h \<and> parent (h ! c) = Some p)"
    if "attached h ROOT p" "children (h ! p) = Some cs" for p cs
  proof -
    from attached_allocated [OF that(1) ok r(1)] ok have "cell_ok h p"
      by (simp add: overlay_ok_def)
    with that(2) show ?thesis by (simp add: cell_ok_def)
  qed
  have 1: "\<exists>cs i. children (h ! p) = Some cs \<and> i < length cs \<and> cs ! i = n
      \<and> Wrapper_index ROOT h (Wrapper [n] None) Undefined = Inr (int i)"
    if a: "attached h ROOT n" and p: "parent (h ! n) = Some p" for n p
    using a
  proof (cases rule: attached.cases)
    case root
    with p r(2) show ?thesis by simp
  next
    case (child q cs)
    from cell [OF child(1,2)] child(3) p
    have q: "q = p" "hasChildren (node (h ! p))" by auto
    from indexOf_nth [OF indexOf_mem [OF child(3)]]
    have i: "nat (indexOf cs n) < length cs" "cs ! nat (indexOf cs n) = n" by blast+
    from index_of_single [OF p q(2), of cs ROOT] child(2) q(1) indexOf_mem [OF child(3)]
    have "Wrapper_index ROOT h (Wrapper [n] None) Undefined = Inr (int (nat (indexOf cs n)))"
      by simp
    with i child(2) q(1) show ?thesis by blast
  qed
  have 2: "distinct cs \<and> (\<forall>c\<in>set cs. attached h ROOT c \<and> parent (h ! c) = Some p)"
    if "attached h ROOT p" "children (h ! p) = Some cs" for p cs
    using cell [OF that] attached.child [OF that] by blast
  show ?thesis
    unfolding consistent_def using 1 2 by blast
qed

text \<open>
  \<^verbatim>\<open>after\<close> with a Node object inserts that very object: in the session of
  \<open>abc_tree\<close>, \<^verbatim>\<open>$(n).after(n)\<close> for the first rule leaves it twice in the
  \<^verbatim>\<open>children\<close> of \<^verbatim>\<open>ROOT\<close>.
\<close>

theorem after_wrapped_duplicates:
  "createQuery abc_tree = (0, abc_heap)
   \<and> fst (Wrapper_after 0 abc_heap (Wrapper [1] None) (Wrapped 1)) = Inr (Wrapper [1] None)
   \<and> children (snd (Wrapper_after 0 abc_heap (Wrapper [1] None) (Wrapped 1)) ! 0)
       = Some [1, 1, 2, 3]
   \<and> \<not> consistent 0 (snd (Wrapper_after 0 abc_heap (Wrapper [1] None) (Wrapped 1)))"
proof -
  let ?h = "snd (Wrapper_after 0 abc_heap (Wrapper [1] None) (Wrapped 1))"
  have a: "fst (Wrapper_after 0 abc_heap (Wrapper [1] None) (Wrapped 1)) = Inr (Wrapper [1] None)"
    and c: "children (?h ! 0) = Some [1, 1, 2, 3]"
    by (simp_all add: Wrapper_after_def returning_def abc_heap_def abc_tree_def
        hasChildren_def new_Wrapper_def Wrapper_index_def Wrapper_index_st_def js_splice_def)
  have "attached ?h 0 0"
    by (rule attached.root)
  with c have "\<not> consistent 0 ?h"
    unfolding consistent_def by fastforce
  with a c show ?thesis
    by (simp add: createQuery_abc)
qed

lemma abc_after: "Wrapper_after 0 abc_heap (Wrapper [2] None) (RawNode z_rule) =
  (Inr (Wrapper [2] None),
     [\<lparr>node = abc_tree, parent = None, children = Some [1, 2, 4, 3]\<rparr>,
      \<lparr>node = Raw ''rule'' (Text ''r''), parent = Some 0, children = None\<rparr>,
      \<lparr>node = Raw ''rule'' (Text ''g''), parent = Some 0, children = None\<rparr>,
      \<lparr>node = Raw ''rule'' (Text ''b''), parent = Some 0, children = None\<rparr>,
      \<lparr>node = z_rule, parent = Some 0, children = None\<rparr>])"
  by (simp add: Wrapper_after_def returning_def abc_heap_def abc_tree_def z_rule_def
      hasChildren_def new_Wrapper_def Wrapper_index_def Wrapper_index_st_def js_splice_def)

lemma abc_before: "Wrapper_before abc_heap (Wrapper [2] None) (RawNode z_rule) =
  (Inr (Wrapper [2] None),
     [\<lparr>node = abc_tree, parent = None, children = Some [1, 4, 2, 3]\<rparr>,
      \<lparr>node = Raw ''rule'' (Text ''r''), parent = Some 0, children = None\<rparr>,
      \<lparr>node = Raw ''rule'' (Text ''g''), parent = Some 0, children = None\<rparr>,
      \<lparr>node = Raw ''rule'' (Text ''b''), parent = Some 0, children = None\<rparr>,
      \<lparr>node = z_rule, parent = Some 0, children = None\<rparr>])"
  by (simp add: Wrapper_before_def returning_def abc_heap_def abc_tree_def z_rule_def
      hasChildren_def js_splice_def)

lemma abc_remove: "Wrapper_remove abc_heap (Wrapper [2] None) =
  (Inr (Wrapper [2] None),
     [\<lparr>node = abc_tree, parent = None, children = Some [1, 3]\<rparr>,
      \<lparr>node = Raw ''rule'' (Text ''r''), parent = Some 0, children = None\<rparr>,
      \<lparr>node = Raw ''rule'' (Text ''g''), parent = Some 0, children = None\<rparr>,
      \<lparr>node = Raw ''rule'' (Text ''b''), parent = Some 0, children = None\<rparr>])"
  by (simp add: Wrapper_remove_def returning_def abc_heap_def abc_tree_def
      hasChildren_def js_splice_def)

lemma abc_replace: "Wrapper_replace abc_heap (Wrapper [2] None) (\<lambda>g n. RawNode z_rule) =
  (Inr (Wrapper [2] None),
     [\<lparr>node = abc_tree, parent = None, children = Some [1, 4, 3]\<rparr>,
      \<lparr>node = Raw ''rule'' (Text ''r''), parent = Some 0, children = None\<rparr>,
      \<lparr>node = Raw ''rule'' (Text ''g''), parent = Some 0, children = None\<rparr>,
      \<lparr>node = Raw ''rule'' (Text ''b''), parent = Some 0, children = None\<rparr>,
      \<lparr>node = z_rule, parent = Some 0, children = None\<rparr>])"
  by (simp add: Wrapper_replace_def returning_def abc_heap_def abc_tree_def z_rule_def
      hasChildren_def js_splice_def)

text \<open>
  C5, as amended. Let the store be well formed, \<^verbatim>\<open>ROOT\<close> a Node without parent, and
  the Wrapper hold allocated Nodes. After a call of \<^verbatim>\<open>after\<close> or \<^verbatim>\<open>before\<close> with a
  raw node, of \<^verbatim>\<open>remove\<close>, or of \<^verbatim>\<open>replace\<close> with a callback that returns raw
  nodes, when the call returns: the store is well formed, every Node of the tree that has
  a parent occurs in the parent's \<^verbatim>\<open>children\<close> at the position \<^verbatim>\<open>index()\<close> returns
  for it, and no \<^verbatim>\<open>children\<close> array of the tree holds a Node twice or a Node of
  another parent. The store that \<^verbatim>\<open>createQuery\<close> builds is well formed
  (\<open>createQuery_ok\<close>).
\<close>

theorem mutation_keeps_overlay_consistent:
  assumes "overlay_ok h" "ROOT < length h" "parent (h ! ROOT) = None"
    "\<forall>n\<in>set (nodes this). n < length h"
  shows "(Wrapper_after ROOT h this (RawNode r) = (Inr w, h')
            \<longrightarrow> overlay_ok h' \<and> consistent ROOT h')
     \<and> (Wrapper_before h this (RawNode r) = (Inr w, h')
            \<longrightarrow> overlay_ok h' \<and> consistent ROOT h')
     \<and> (Wrapper_remove h this = (Inr w, h')
            \<longrightarrow> overlay_ok h' \<and> consistent ROOT h')
     \<and> (Wrapper_replace h this (\<lambda>g n. RawNode (f g n)) = (Inr w, h')
            \<longrightarrow> overlay_ok h' \<and> consistent ROOT h')"
proof -
  have k: "overlay_ok g \<and> consistent ROOT g" if "overlay_ok g" "frame h g" for g
  proof -
    from that(2) assms(2,3) have "ROOT < length g" "parent (g ! ROOT) = None"
      by (simp_all add: frame_def)
    from overlay_ok_consistent [OF that(1) this] that(1) show ?thesis by simp
  qed
  have "Wrapper_after ROOT h this (RawNode r) = (Inr w, h')
      \<longrightarrow> overlay_ok h' \<and> consistent ROOT h'"
    using after_loop_ok [OF assms(1,4), of ROOT r] k [of "snd (after_loop ROOT (RawNode r) (nodes this) h)"]
    by (auto simp: Wrapper_after_def returning_def split: option.splits)
  moreover have "Wrapper_before h this (RawNode r) = (Inr w, h')
      \<longrightarrow> overlay_ok h' \<and> consistent ROOT h'"
    using before_loop_ok [OF assms(1,4), of r] k [of "snd (before_loop (RawNode r) (nodes this) h)"]
    by (auto simp: Wrapper_before_def returning_def split: option.splits)
  moreover have "Wrapper_remove h this = (Inr w, h')
      \<longrightarrow> overlay_ok h' \<and> consistent ROOT h'"
    using remove_loop_ok [OF assms(1,4)] k [of "snd (remove_loop (nodes this) h)"]
    by (auto simp: Wrapper_remove_def returning_def split: option.splits)
  moreover have "Wrapper_replace h this (\<lambda>g n. RawNode (f g n)) = (Inr w, h')
      \<longrightarrow> overlay_ok h' \<and> consistent ROOT h'"
    using replace_loop_ok [OF assms(1,4), of f]
      k [of "snd (replace_loop (\<lambda>g n. RawNode (f g n)) (nodes this) h)"]
    by (auto simp: Wrapper_replace_def returning_def split: option.splits)
  ultimately show ?thesis by blast
qed

theorem mutation_keeps_overlay_consistent_witness:
  "createQuery abc_tree = (0, abc_heap)
   \<and> fst (Wrapper_after 0 abc_heap (Wrapper [2] None) (RawNode z_rule)) = Inr (Wrapper [2] None)
   \<and> consistent 0 (snd (Wrapper_after 0 abc_heap (Wrapper [2] None) (RawNode z_rule)))
   \<and> fst (Wrapper_before abc_heap (Wrapper [2] None) (RawNode z_rule)) = Inr (Wrapper [2] None)
   \<and> consistent 0 (snd (Wrapper_before abc_heap (Wrapper [2] None) (RawNode z_rule)))
   \<and> fst (Wrapper_remove abc_heap (Wrapper [2] None)) = Inr (Wrapper [2] None)
   \<and> consistent 0 (snd (Wrapper_remove abc_heap (Wrapper [2] None)))
   \<and> fst (Wrapper_replace abc_heap (Wrapper [2] None) (\<lambda>g n. RawNode z_rule))
       = Inr (Wrapper [2] None)
   \<and> consistent 0 (snd (Wrapper_replace abc_heap (Wrapper [2] None) (\<lambda>g n. RawNode z_rule)))"
proof -
  have h: "overlay_ok abc_heap" "0 < length abc_heap" "parent (abc_heap ! 0) = None"
    "\<forall>n\<in>set (nodes (Wrapper [2] None)). n < length abc_heap"
    using abc_heap_ok by (simp_all add: abc_heap_def)
  note t = mutation_keeps_overlay_consistent [OF h, of z_rule "Wrapper [2] None" _ "\<lambda>g n. z_rule"]
  show ?thesis
    using t [of "snd (Wrapper_after 0 abc_heap (Wrapper [2] None) (RawNode z_rule))"]
      t [of "snd (Wrapper_before abc_heap (Wrapper [2] None) (RawNode z_rule))"]
      t [of "snd (Wrapper_remove abc_heap (Wrapper [2] None))"]
      t [of "snd (Wrapper_replace abc_heap (Wrapper [2] None) (\<lambda>g n. RawNode z_rule))"]
    by (simp add: createQuery_abc abc_after abc_before abc_remove abc_replace)
qed

section \<open>Reading an unmutated tree back\<close>

lemma normal_form_id: "normal_form r = r"
  by (induction r rule: normal_form.induct) (simp_all add: toJSON_def map_idI)

lemma foldr_max_le: "foldr max (map f ks) 0 \<le> (d::nat) \<longleftrightarrow> (\<forall>k\<in>set ks. f k \<le> d)"
  by (induction ks) auto

lemma new_Node_toJSON:
  "new_Node r p h = (a, h') \<Longrightarrow> depth r \<le> d \<Longrightarrow>
     (\<forall>q. length h \<le> q \<and> q < length h' \<longrightarrow> g ! q = h' ! q) \<Longrightarrow>
     Node_toJSON d g a = Some (Inr (normal_form r))"
  "new_Nodes ks this h = (cs, h') \<Longrightarrow> (\<forall>k\<in>set ks. depth k \<le> d) \<Longrightarrow>
     (\<forall>q. length h \<le> q \<and> q < length h' \<longrightarrow> g ! q = h' ! q) \<Longrightarrow>
     mapM (Node_toJSON d g) cs = Some (Inr (map normal_form ks))"
proof (induction r p h and ks this h arbitrary: a h' d g and cs h' d g
    rule: new_Node_new_Nodes.induct)
  case (1 t s p h)
  from "1.prems"(2) obtain d' where d: "d = Suc d'"
    by (cases d) auto
  from "1.prems"(1,3) have "g ! a = \<lparr>node = Raw t (Text s), parent = p, children = None\<rparr>"
    by auto
  then show ?case
    by (simp add: d hasChildren_def)
next
  case (2 t ks p h)
  let ?h1 = "h @ [\<lparr>node = Raw t (Items ks), parent = p, children = None\<rparr>]"
  obtain cs h2 where n: "new_Nodes ks (length h) ?h1 = (cs, h2)"
    by fastforce
  from "2.prems"(2) obtain d' where d: "d = Suc d'" and ks: "\<forall>k\<in>set ks. depth k \<le> d'"
    by (cases d) (auto simp: foldr_max_le)
  from new_Node_frame(2) [OF n]
  have f: "length ?h1 \<le> length h2" "\<forall>q<length ?h1. h2 ! q = ?h1 ! q"
    by blast+
  from "2.prems"(1) n
  have a: "a = length h" and h': "h' = h2[length h := (h2 ! length h)\<lparr>children := Some cs\<rparr>]"
    by (auto simp: Let_def)
  from f have h2a: "h2 ! length h = \<lparr>node = Raw t (Items ks), parent = p, children = None\<rparr>"
    by simp
  have ga: "g ! a = \<lparr>node = Raw t (Items ks), parent = p, children = Some cs\<rparr>"
    using "2.prems"(3) f h2a by (simp add: a h')
  have "\<forall>q. length ?h1 \<le> q \<and> q < length h2 \<longrightarrow> g ! q = h2 ! q"
    using "2.prems"(3) by (simp add: h')
  from "2.IH" [OF refl refl n ks this]
  have "mapM (Node_toJSON d' g) cs = Some (Inr (map normal_form ks))" .
  then show ?case
    by (simp add: d ga hasChildren_def)
next
  case (3 this h)
  then show ?case by simp
next
  case (4 k ks this h)
  obtain c h1 where c: "new_Node k (Some this) h = (c, h1)" by fastforce
  obtain cs' h2 where cs: "new_Nodes ks this h1 = (cs', h2)" by fastforce
  from "4.prems"(1) c cs have e: "cs = c # cs'" "h' = h2" by auto
  from new_Node_frame(1) [OF c] have f1: "length h < length h1" by blast
  from new_Node_frame(2) [OF cs]
  have f2: "length h1 \<le> length h2" "\<forall>q<length h1. h2 ! q = h1 ! q" by blast+
  have "\<forall>q. length h \<le> q \<and> q < length h1 \<longrightarrow> g ! q = h1 ! q"
    using "4.prems"(3) f2 by (simp add: e)
  with "4.IH"(1) [OF c] "4.prems"(2)
  have 1: "Node_toJSON d g c = Some (Inr (normal_form k))" by simp
  have "\<forall>q. length h1 \<le> q \<and> q < length h2 \<longrightarrow> g ! q = h2 ! q"
    using "4.prems"(3) f1 by (simp add: e)
  with "4.IH"(2) [OF c [symmetric] refl cs] "4.prems"(2)
  have 2: "mapM (Node_toJSON d g) cs' = Some (Inr (map normal_form ks))" by simp
  show ?case
    by (simp add: e 1 2)
qed

text \<open>
  \<^verbatim>\<open>get()\<close> on the root Wrapper returns an array with one element, not the tree.
\<close>

theorem get_root_is_array:
  "createQuery abc_tree = (0, abc_heap)
   \<and> query 0 Undefined = Inr (Wrapper [0] None)
   \<and> Wrapper_get 2 abc_heap (Wrapper [0] None) Undefined
       = Some (Inr (JArray [JObject (normal_form abc_tree)]))
   \<and> Wrapper_get 2 abc_heap (Wrapper [0] None) Undefined
       \<noteq> Some (Inr (JObject (normal_form abc_tree)))"
proof -
  have "Wrapper_get 2 abc_heap (Wrapper [0] None) Undefined
       = Some (Inr (JArray [JObject abc_tree]))"
    by (simp add: Wrapper_get_def abc_heap_def abc_tree_def hasChildren_def toJSON_def
        eval_nat_numeral)
  then show ?thesis
    by (simp add: createQuery_abc query_def new_Wrapper_def normal_form_id)
qed

text \<open>
  C6, as amended. In the session of a tree, with a call depth that covers the depth of
  the tree, \<^verbatim>\<open>get()\<close> on the root Wrapper returns the array whose one element is the
  tree as \<^verbatim>\<open>toJSON\<close> rebuilds it bottom-up, and \<^verbatim>\<open>get(0)\<close> returns that element. With
  the default \<^verbatim>\<open>toJSON\<close> the rebuilt tree equals the tree.
\<close>

theorem get_round_trip:
  "createQuery ast = (ROOT, h) \<Longrightarrow> depth ast \<le> d \<Longrightarrow>
     query ROOT Undefined = Inr (Wrapper [ROOT] None)
     \<and> Wrapper_get d h (Wrapper [ROOT] None) Undefined
         = Some (Inr (JArray [JObject (normal_form ast)]))
     \<and> Wrapper_get d h (Wrapper [ROOT] None) (JNum 0) = Some (Inr (JObject (normal_form ast)))
     \<and> normal_form ast = ast"
proof -
  assume c: "createQuery ast = (ROOT, h)" and d: "depth ast \<le> d"
  from c have n: "new_Node ast None [] = (ROOT, h)"
    by (simp add: createQuery_def)
  from new_Node_toJSON(1) [OF n d, of h]
  have j: "Node_toJSON d h ROOT = Some (Inr (normal_form ast))"
    by simp
  show ?thesis
    by (simp add: query_def new_Wrapper_def Wrapper_get_def j js_nth_def normal_form_id)
qed

theorem get_round_trip_witness:
  "Wrapper_get 2 (snd (createQuery abc_tree)) (Wrapper [fst (createQuery abc_tree)] None) Undefined
     = Some (Inr (JArray [JObject abc_tree]))
   \<and> Wrapper_get 2 (snd (createQuery abc_tree)) (Wrapper [fst (createQuery abc_tree)] None) (JNum 0)
     = Some (Inr (JObject abc_tree))"
proof -
  have "depth abc_tree \<le> 2"
    by (simp add: abc_tree_def)
  from get_round_trip [OF prod.collapse [symmetric] this] show ?thesis
    by simp
qed

section \<open>eq, selector resolution and get\<close>

text \<open>
  C7. \<^verbatim>\<open>eq\<close> with an argument that is not an integer fails the invariant
  \<^verbatim>\<open>eq() requires an index\<close>. An integer argument is a number \<open>of_int i\<close>: inside the
  Wrapper it gives the Wrapper of the node at \<open>i\<close> alone, outside it gives a Wrapper
  of length 0.
\<close>

theorem eq_spec:
  "(\<not> isInteger index \<longrightarrow>
      Wrapper_eq ROOT this index = Inl (InvariantViolation ''eq() requires an index''))
   \<and> (isInteger index \<longrightarrow> (\<exists>j. index = JNum (of_int j)))
   \<and> (0 \<le> i \<and> i < int (length (nodes this)) \<longrightarrow>
        Wrapper_eq ROOT this (JNum (of_int i)) = Inr (Wrapper [nodes this ! nat i] (Some this)))
   \<and> (i < 0 \<or> int (length (nodes this)) \<le> i \<longrightarrow>
        (\<exists>w. Wrapper_eq ROOT this (JNum (of_int i)) = Inr w \<and> Wrapper_length w = 0))"
proof -
  have "Wrapper_eq ROOT this (JNum (of_int i)) =
     new_Wrapper ROOT
       (case js_nth (nodes this) i of Some n \<Rightarrow> JNode n | None \<Rightarrow> JArray []) (Some this)"
    by (simp add: Wrapper_eq_def)
  then show ?thesis
    using isInteger_cases [of index]
    by (auto simp: Wrapper_eq_def js_nth_def new_Wrapper_Node new_Wrapper_empty
        Wrapper_length_def)
qed

theorem eq_spec_witness:
  "Wrapper_eq 0 (Wrapper [1, 2] None) (JStr ''1'')
     = Inl (InvariantViolation ''eq() requires an index'')
   \<and> Wrapper_eq 0 (Wrapper [1, 2] None) Undefined
     = Inl (InvariantViolation ''eq() requires an index'')
   \<and> Wrapper_eq 0 (Wrapper [1, 2] None) (JNum 1) = Inr (Wrapper [2] (Some (Wrapper [1, 2] None)))
   \<and> (\<exists>w. Wrapper_eq 0 (Wrapper [1, 2] None) (JNum 2) = Inr w \<and> Wrapper_length w = 0)"
  using eq_spec [of "JStr ''1''" 0 "Wrapper [1, 2] None" 1]
    eq_spec [of Undefined 0 "Wrapper [1, 2] None" 2]
  by simp

text \<open>
  What \<^verbatim>\<open>getSelector\<close> returns, by the kind of its argument. It returns a predicate
  for every argument. For a string the predicate compares \<^verbatim>\<open>getType\<close> of the raw node
  with the string; a function is called with the Node; every other argument that is no
  \<^verbatim>\<open>RegExp\<close> gives the predicate that is true everywhere; none of these touches
  \<^verbatim>\<open>lastIndex\<close>. For a \<^verbatim>\<open>RegExp\<close> without the flags \<^verbatim>\<open>g\<close> and \<^verbatim>\<open>y\<close> the
  predicate is true exactly when the pattern matches somewhere in the type.
\<close>

lemma getSelector_kinds:
  "getSelector sel \<noteq> None
   \<and> getSelector (JStr s) = Some (\<lambda>i h n. (getType (node (h ! n)) = s, i))
   \<and> getSelector (JFunction f) = Some (\<lambda>i h n. (f h n, i))
   \<and> (\<not> isString sel \<and> \<not> isRegExp sel \<and> \<not> isFunction sel
        \<longrightarrow> getSelector sel = Some (\<lambda>i h n. (True, i)))
   \<and> (\<not> global re \<and> \<not> sticky re
        \<longrightarrow> getSelector (JRegExp re)
              = Some (\<lambda>i h n. (regexp_search (matcher re) (getType (node (h ! n))) 0 \<noteq> None, i)))"
proof -
  have "getSelector sel \<noteq> None"
    by (cases sel) (simp_all add: getSelector_def)
  moreover have "\<not> isString sel \<and> \<not> isRegExp sel \<and> \<not> isFunction sel
      \<longrightarrow> getSelector sel = Some (\<lambda>i h n. (True, i))"
    by (simp add: getSelector_def)
  moreover have "\<not> global re \<and> \<not> sticky re
      \<longrightarrow> getSelector (JRegExp re)
            = Some (\<lambda>i h n. (regexp_search (matcher re) (getType (node (h ! n))) 0 \<noteq> None, i))"
    by (auto simp: getSelector_def regexp_test_def fun_eq_iff split: option.splits)
  ultimately show ?thesis
    by (simp add: getSelector_def)
qed

text \<open>
  C8. The predicate that \<^verbatim>\<open>getSelector\<close> returns for a \<^verbatim>\<open>RegExp\<close> is
  \<^verbatim>\<open>selector.test\<close> on the type, and under the flag \<^verbatim>\<open>g\<close> its answer depends on
  \<^verbatim>\<open>lastIndex\<close>. In the session of \<open>abc_tree\<close> the Nodes 1, 2 and 3 have the type
  \<^verbatim>\<open>rule\<close>, which \<^verbatim>\<open>/rule/g\<close> matches. The predicate for \<^verbatim>\<open>/rule/g\<close> is true on
  Node 1 and leaves \<^verbatim>\<open>lastIndex\<close> at 4; called next on Node 2 it is false. So
  \<^verbatim>\<open>$().find(/rule/g)\<close> returns the Nodes 1 and 3 and leaves out Node 2.
\<close>

theorem regexp_selector_keeps_lastIndex:
  "createQuery abc_tree = (0, abc_heap)
   \<and> getType (node (abc_heap ! 1)) = ''rule''
   \<and> getType (node (abc_heap ! 2)) = ''rule''
   \<and> regexp_search (matcher rule_g) ''rule'' 0 = Some 4
   \<and> map_option (\<lambda>p. p 0 abc_heap 1) (getSelector (JRegExp rule_g)) = Some (True, 4)
   \<and> map_option (\<lambda>p. p 4 abc_heap 2) (getSelector (JRegExp rule_g)) = Some (False, 0)
   \<and> Wrapper_find 0 2 abc_heap (Wrapper [0] None) (JRegExp rule_g)
       = Some (Inr (Wrapper [1, 3] (Some (Wrapper [0] None))))"
proof -
  have t: "getType (node (abc_heap ! 1)) = ''rule''" "getType (node (abc_heap ! 2)) = ''rule''"
    by (simp_all add: abc_heap_def getType_def)
  have s: "regexp_search (matcher rule_g) ''rule'' 0 = Some 4"
    by (simp add: regexp_search_def rule_g_def literal_def)
  have p1: "map_option (\<lambda>p. p 0 abc_heap 1) (getSelector (JRegExp rule_g)) = Some (True, 4)"
    by (simp add: getSelector_def regexp_test_def regexp_search_def rule_g_def literal_def
        abc_heap_def getType_def)
  have p2: "map_option (\<lambda>p. p 4 abc_heap 2) (getSelector (JRegExp rule_g)) = Some (False, 0)"
    by (simp add: getSelector_def regexp_test_def regexp_search_def rule_g_def literal_def
        abc_heap_def getType_def)
  have f: "Wrapper_find 0 2 abc_heap (Wrapper [0] None) (JRegExp rule_g)
       = Some (Inr (Wrapper [1, 3] (Some (Wrapper [0] None))))"
    by (simp add: Wrapper_find_def Wrapper_find_st_def getSelector_def regexp_test_def
        regexp_search_def rule_g_def literal_def abc_heap_def abc_tree_def hasChildren_def
        getType_def new_Wrapper_def eval_nat_numeral)
  from createQuery_abc t s p1 p2 f show ?thesis
    by blast
qed

text \<open>
  C9. \<^verbatim>\<open>get\<close> with an argument that is not an integer returns what \<^verbatim>\<open>get()\<close>
  returns: when every node of the Wrapper serialises, the array of their JSON
  reconstructions, in order.
\<close>

theorem get_non_integer:
  "\<not> isInteger index \<Longrightarrow>
     Wrapper_get d h this index = Wrapper_get d h this Undefined
     \<and> ((\<forall>n\<in>set (nodes this). Node_toJSON d h n = Some (Inr (json n))) \<longrightarrow>
          Wrapper_get d h this index
            = Some (Inr (JArray (map (\<lambda>n. JObject (json n)) (nodes this)))))"
proof -
  assume i: "\<not> isInteger index"
  have "Wrapper_get d h this index = Wrapper_get d h this Undefined"
    using i by (simp add: Wrapper_get_def)
  moreover have "Wrapper_get d h this index
      = Some (Inr (JArray (map (\<lambda>n. JObject (json n)) (nodes this))))"
    if "\<forall>n\<in>set (nodes this). Node_toJSON d h n = Some (Inr (json n))"
    using i mapM_all_ok [OF that] by (simp add: Wrapper_get_def comp_def)
  ultimately show ?thesis by blast
qed

theorem get_non_integer_witness:
  "Wrapper_get 1 abc_heap (Wrapper [1, 2] None) (JStr ''0'')
     = Some (Inr (JArray [JObject (Raw ''rule'' (Text ''r'')), JObject (Raw ''rule'' (Text ''g''))]))
   \<and> Wrapper_get 1 abc_heap (Wrapper [1, 2] None) Null
     = Some (Inr (JArray [JObject (Raw ''rule'' (Text ''r'')), JObject (Raw ''rule'' (Text ''g''))]))
   \<and> Wrapper_get 1 abc_heap (Wrapper [1, 2] None) (JNum (1 / 2))
     = Some (Inr (JArray [JObject (Raw ''rule'' (Text ''r'')), JObject (Raw ''rule'' (Text ''g''))]))"
proof -
  let ?w = "Wrapper [1, 2] None"
  let ?json = "\<lambda>n. node (abc_heap ! n)"
  have "\<lfloor>1 / 2 :: rat\<rfloor> = 0"
    by (simp add: floor_eq_iff)
  then have i: "\<not> isInteger (JStr ''0'')" "\<not> isInteger Null" "\<not> isInteger (JNum (1 / 2))"
    by simp_all
  have j: "\<forall>n\<in>set (nodes ?w). Node_toJSON 1 abc_heap n = Some (Inr (?json n))"
    by (simp add: abc_heap_def hasChildren_def toJSON_def)
  have e: "map (\<lambda>n. JObject (?json n)) (nodes ?w)
      = [JObject (Raw ''rule'' (Text ''r'')), JObject (Raw ''rule'' (Text ''g''))]"
    by (simp add: abc_heap_def)
  have "Wrapper_get 1 abc_heap ?w (JStr ''0'')
      = Some (Inr (JArray (map (\<lambda>n. JObject (?json n)) (nodes ?w))))"
    using get_non_integer [OF i(1), of 1 abc_heap ?w ?json] j by blast
  moreover have "Wrapper_get 1 abc_heap ?w Null
      = Some (Inr (JArray (map (\<lambda>n. JObject (?json n)) (nodes ?w))))"
    using get_non_integer [OF i(2), of 1 abc_heap ?w ?json] j by blast
  moreover have "Wrapper_get 1 abc_heap ?w (JNum (1 / 2))
      = Some (Inr (JArray (map (\<lambda>n. JObject (?json n)) (nodes ?w))))"
    using get_non_integer [OF i(3), of 1 abc_heap ?w ?json] j by blast
  ultimately show ?thesis
    unfolding e by blast
qed

end
